theory Spec2Isabelle
  imports Main "HOL-Library.Char_ord" "HOL-Library.List_Lexorder"
begin

section \<open>The store\<close>

text \<open>
  The Go package \<^verbatim>\<open>roundrobin\<close> keeps all of its state in one Redis database and
  reaches it through go-redis commands. The model below is a single client talking to that
  database:
  \<^item> the sorted set \<^verbatim>\<open>message_gateway:phone_numbers\<close> is the list \<open>zset\<close> of
    (member, score) pairs in Redis' own order (ascending score, ties by member);
  \<^item> every string key (the mutex, the cursor, the counters, the per-number locks) lives in
    the one key space \<open>kv\<close>, addressed by the very key string the Go code builds, with its
    value and its optional expiry deadline;
  \<^item> \<open>clock\<close> is the server time in milliseconds; a key whose deadline has passed is
    treated as absent by every command, as Redis does;
  \<^item> \<open>faults\<close> is the schedule of I/O failures to come: the head says whether the next
    command fails (a failed command has no effect on the data and returns an error);
  \<^item> \<open>trace\<close> records, oldest first, every command issued with its reply, and every
    \<^verbatim>\<open>time.Sleep\<close>;
  \<^item> a duration (the ttl of a lease, the expiry of the mutex, a sleep) is a number of
    milliseconds, not negative; go-redis writes a key given the duration zero without an
    expiry.

  Scores are \<^verbatim>\<open>float64\<close> in Go; the program only ever produces the integral values
  0, 1, 2, ... which \<^verbatim>\<open>float64\<close> represents exactly below \<open>2^53\<close>, so they are
  integers here. Counter values are unbounded integers (Redis refuses to increment past
  \<open>2^63 - 1\<close>, which no run reaches).
\<close>

datatype error =
    AlreadyExists          \<comment> \<open>\<^verbatim>\<open>phone number already exists\<close>\<close>
  | NotFound               \<comment> \<open>\<^verbatim>\<open>phone number does not exist\<close>\<close>
  | NoResourcesAvailable   \<comment> \<open>\<^verbatim>\<open>no phone numbers available\<close>\<close>
  | LockTimeout            \<comment> \<open>\<^verbatim>\<open>failed to acquire lock after maximum retries\<close>\<close>
  | AllResourcesLeased     \<comment> \<open>\<^verbatim>\<open>no available phone numbers (all are locked)\<close>\<close>
  | StoreError             \<comment> \<open>any error returned by the Redis client other than \<^verbatim>\<open>redis.Nil\<close>\<close>

datatype status = ErrNone | ErrNil | ErrIO

datatype cmd =
    ZSCORE string
  | ZREVRANGE_0_0
  | ZADD int string
  | ZCARD
  | ZRANGEBYSCORE "int option"
  | SETNX string nat
  | GET string
  | SET string int
  | EXISTS string
  | INCR string
  | DEL string
  | SLEEP nat

datatype reply =
    Failed
  | Nil
  | Num int
  | Flag bool
  | Entries "(string \<times> int) list"
  | Done

record world =
  zset :: "(string \<times> int) list"
  kv :: "string \<Rightarrow> (int \<times> nat option) option"
  clock :: nat
  faults :: "bool list"
  trace :: "(cmd \<times> reply) list"

definition defaultPhoneNumbersKey :: string where
  "defaultPhoneNumbersKey = ''message_gateway:phone_numbers''"

definition defaultLockKey :: string where
  "defaultLockKey = ''message_gateway:lock''"

definition lastUsedIndexKey :: string where
  "lastUsedIndexKey = ''message_gateway:last_used_index''"

definition counterKeyPrefix :: string where
  "counterKeyPrefix = ''message_gateway:counter:''"

definition phoneLockLimitedKeyPrefix :: string where
  "phoneLockLimitedKeyPrefix = ''message_gateway:phone_lock_limited:''"

definition maxRetries :: nat where
  "maxRetries = 100"

definition lockDuration :: nat where
  "lockDuration = 10000"

definition timeDelay :: nat where
  "timeDelay = 100"

subsection \<open>Redis commands as the client sees them\<close>

definition lookup :: "nat \<Rightarrow> (int \<times> nat option) option \<Rightarrow> int option" where
  "lookup now e =
     (case e of
        None \<Rightarrow> None
      | Some (v, None) \<Rightarrow> Some v
      | Some (v, Some d) \<Rightarrow> if now < d then Some v else None)"

definition live :: "world \<Rightarrow> string \<Rightarrow> bool" where
  "live s key = (lookup (clock s) (kv s key) \<noteq> None)"

definition expiry :: "nat \<Rightarrow> nat \<Rightarrow> nat option" where
  \<comment> \<open>go-redis: a zero expiration means the key never expires\<close>
  "expiry now ttl = (if ttl = 0 then None else Some (now + ttl))"

definition failing :: "world \<Rightarrow> bool" where
  "failing s = (case faults s of [] \<Rightarrow> False | f # _ \<Rightarrow> f)"

definition logged :: "cmd \<Rightarrow> reply \<Rightarrow> world \<Rightarrow> world" where
  "logged c r s = s\<lparr>faults := tl (faults s), trace := trace s @ [(c, r)]\<rparr>"

definition zbefore :: "string \<times> int \<Rightarrow> string \<times> int \<Rightarrow> bool" where
  "zbefore y x = (snd y < snd x \<or> (snd y = snd x \<and> fst y < fst x))"

fun zinsert :: "string \<times> int \<Rightarrow> (string \<times> int) list \<Rightarrow> (string \<times> int) list" where
  "zinsert x [] = [x]"
| "zinsert x (y # ys) = (if zbefore y x then y # zinsert x ys else x # y # ys)"

definition ZScore :: "string \<Rightarrow> world \<Rightarrow> (int \<times> status) \<times> world" where
  \<comment> \<open>\<^verbatim>\<open>client.ZScore(ctx, phoneNumbersKey, member).Result()\<close>: the score and the error;
      the score is Go's zero value whenever the error is not nil\<close>
  "ZScore member s =
     (if failing s then ((0, ErrIO), logged (ZSCORE member) Failed s)
      else case map_of (zset s) member of
             None \<Rightarrow> ((0, ErrNil), logged (ZSCORE member) Nil s)
           | Some sc \<Rightarrow> ((sc, ErrNone), logged (ZSCORE member) (Num sc) s))"

definition ZRevRangeWithScores_0_0 :: "world \<Rightarrow> (error + (string \<times> int) list) \<times> world" where
  "ZRevRangeWithScores_0_0 s =
     (if failing s then (Inl StoreError, logged ZREVRANGE_0_0 Failed s)
      else let top = (case rev (zset s) of [] \<Rightarrow> [] | z # _ \<Rightarrow> [z])
           in (Inr top, logged ZREVRANGE_0_0 (Entries top) s))"

definition ZAdd :: "int \<Rightarrow> string \<Rightarrow> world \<Rightarrow> error option \<times> world" where
  \<comment> \<open>\<^verbatim>\<open>ZADD\<close> without flags: a member already in the set gets the new score and moves\<close>
  "ZAdd sc member s =
     (if failing s then (Some StoreError, logged (ZADD sc member) Failed s)
      else (None, logged (ZADD sc member) (Num (if map_of (zset s) member = None then 1 else 0))
                    (s\<lparr>zset := zinsert (member, sc) (filter (\<lambda>z. fst z \<noteq> member) (zset s))\<rparr>)))"

definition ZCard :: "world \<Rightarrow> (error + int) \<times> world" where
  "ZCard s =
     (if failing s then (Inl StoreError, logged ZCARD Failed s)
      else (Inr (int (length (zset s))), logged ZCARD (Num (int (length (zset s)))) s))"

definition in_range :: "int option \<Rightarrow> string \<times> int \<Rightarrow> bool" where
  \<comment> \<open>\<^verbatim>\<open>Min\<close> is \<^verbatim>\<open>-inf\<close> (\<open>None\<close>) or a number, inclusive; \<^verbatim>\<open>Max\<close> is always \<^verbatim>\<open>+inf\<close>\<close>
  "in_range lo z = (case lo of None \<Rightarrow> True | Some m \<Rightarrow> m \<le> snd z)"

definition ZRangeByScoreWithScores :: "int option \<Rightarrow> world \<Rightarrow> (error + (string \<times> int) list) \<times> world" where
  "ZRangeByScoreWithScores lo s =
     (if failing s then (Inl StoreError, logged (ZRANGEBYSCORE lo) Failed s)
      else let zs = filter (in_range lo) (zset s)
           in (Inr zs, logged (ZRANGEBYSCORE lo) (Entries zs) s))"

definition SetNX :: "string \<Rightarrow> nat \<Rightarrow> world \<Rightarrow> (error + bool) \<times> world" where
  \<comment> \<open>\<^verbatim>\<open>client.SetNX(ctx, key, "1", ttl)\<close>: writes only when the key is absent\<close>
  "SetNX key ttl s =
     (if failing s then (Inl StoreError, logged (SETNX key ttl) Failed s)
      else if live s key then (Inr False, logged (SETNX key ttl) (Flag False) s)
      else (Inr True, logged (SETNX key ttl) (Flag True)
                        (s\<lparr>kv := (kv s)(key \<mapsto> (1, expiry (clock s) ttl))\<rparr>)))"

definition Get :: "string \<Rightarrow> world \<Rightarrow> (int \<times> status) \<times> world" where
  \<comment> \<open>\<^verbatim>\<open>client.Get(ctx, key).Float64()\<close>\<close>
  "Get key s =
     (if failing s then ((0, ErrIO), logged (GET key) Failed s)
      else case lookup (clock s) (kv s key) of
             None \<Rightarrow> ((0, ErrNil), logged (GET key) Nil s)
           | Some v \<Rightarrow> ((v, ErrNone), logged (GET key) (Num v) s))"

definition Set :: "string \<Rightarrow> int \<Rightarrow> world \<Rightarrow> error option \<times> world" where
  \<comment> \<open>\<^verbatim>\<open>client.Set(ctx, key, value, 0)\<close>: no expiry\<close>
  "Set key v s =
     (if failing s then (Some StoreError, logged (SET key v) Failed s)
      else (None, logged (SET key v) Done (s\<lparr>kv := (kv s)(key \<mapsto> (v, None))\<rparr>)))"

definition Exists :: "string \<Rightarrow> world \<Rightarrow> (error + int) \<times> world" where
  "Exists key s =
     (if failing s then (Inl StoreError, logged (EXISTS key) Failed s)
      else let n = (if live s key then 1 else 0)
           in (Inr n, logged (EXISTS key) (Num n) s))"

definition Incr :: "string \<Rightarrow> world \<Rightarrow> (error + int) \<times> world" where
  \<comment> \<open>an absent key counts as 0 and gets no expiry; a present one keeps its expiry\<close>
  "Incr key s =
     (if failing s then (Inl StoreError, logged (INCR key) Failed s)
      else case lookup (clock s) (kv s key) of
             None \<Rightarrow> (Inr 1, logged (INCR key) (Num 1) (s\<lparr>kv := (kv s)(key \<mapsto> (1, None))\<rparr>))
           | Some v \<Rightarrow>
               (Inr (v + 1),
                logged (INCR key) (Num (v + 1))
                  (s\<lparr>kv := (kv s)(key \<mapsto> (v + 1, case kv s key of None \<Rightarrow> None | Some e \<Rightarrow> snd e))\<rparr>)))"

definition Del :: "string \<Rightarrow> world \<Rightarrow> world" where
  \<comment> \<open>\<^verbatim>\<open>defer r.client.Del(ctx, r.lockKey)\<close>: the result is dropped\<close>
  "Del key s =
     (if failing s then logged (DEL key) Failed s
      else logged (DEL key) (Num (if live s key then 1 else 0)) (s\<lparr>kv := (kv s)(key := None)\<rparr>))"

definition Sleep :: "nat \<Rightarrow> world \<Rightarrow> world" where
  "Sleep d s = s\<lparr>clock := clock s + d, trace := trace s @ [(SLEEP d, Done)]\<rparr>"

section \<open>The package\<close>

definition AddPhoneNumber :: "string \<Rightarrow> world \<Rightarrow> error option \<times> world" where
  "AddPhoneNumber number s =
     (case ZScore number s of
        ((score, err), s1) \<Rightarrow>
          if err \<noteq> ErrNil \<and> err \<noteq> ErrNone then (Some StoreError, s1)
          else if score \<noteq> 0 then (Some AlreadyExists, s1)
          else
            (case ZRevRangeWithScores_0_0 s1 of
               (Inl e, s2) \<Rightarrow> (Some e, s2)
             | (Inr scores, s2) \<Rightarrow>
                 let nextScore = (case scores of [] \<Rightarrow> 0 | z # _ \<Rightarrow> snd z + 1)
                 in ZAdd nextScore number s2))"

definition SetPhoneNumberLockLimited :: "string \<Rightarrow> nat \<Rightarrow> world \<Rightarrow> error option \<times> world" where
  "SetPhoneNumberLockLimited number ttl s =
     (case ZScore number s of
        ((score, err), s1) \<Rightarrow>
          if err = ErrNil then (Some NotFound, s1)
          else if err \<noteq> ErrNone then (Some StoreError, s1)
          else
            (case SetNX (phoneLockLimitedKeyPrefix @ number) ttl s1 of
               (Inl e, s2) \<Rightarrow> (Some e, s2)
             | (Inr locked, s2) \<Rightarrow> (None, s2)))"

fun first_pass :: "int \<Rightarrow> (string \<times> int) list \<Rightarrow> world \<Rightarrow> (error + string \<times> int) \<times> world" where
  \<comment> \<open>lines 136-158; \<^verbatim>\<open>selectedPhone\<close> and \<^verbatim>\<open>selectedScore\<close> start as Go's zero values\<close>
  "first_pass lastScore [] s = (Inr ('''', 0), s)"
| "first_pass lastScore ((phone, score) # zs) s =
     (if score \<le> lastScore then first_pass lastScore zs s
      else
        (case Exists (phoneLockLimitedKeyPrefix @ phone) s of
           (Inl e, s1) \<Rightarrow> (Inl e, s1)
         | (Inr locked, s1) \<Rightarrow>
             if locked = 0 then (Inr (phone, score), s1) else first_pass lastScore zs s1))"

fun second_pass :: "(string \<times> int) list \<Rightarrow> world \<Rightarrow> (error + string \<times> int) \<times> world" where
  \<comment> \<open>lines 162-176, entered with \<^verbatim>\<open>selectedPhone\<close> empty; when nothing is found
      \<^verbatim>\<open>selectedScore\<close> keeps what the first loop left, which the code then never reads\<close>
  "second_pass [] s = (Inr ('''', 0), s)"
| "second_pass ((phone, score) # zs) s =
     (case Exists (phoneLockLimitedKeyPrefix @ phone) s of
        (Inl e, s1) \<Rightarrow> (Inl e, s1)
      | (Inr locked, s1) \<Rightarrow>
          if locked = 0 then (Inr (phone, score), s1) else second_pass zs s1)"

definition candidates :: "world \<Rightarrow> (error + int \<times> (string \<times> int) list) \<times> world" where
  \<comment> \<open>lines 107-133: the cursor and the list the two loops walk\<close>
  "candidates s =
     (case Get lastUsedIndexKey s of
        ((v, err), s1) \<Rightarrow>
          if err \<noteq> ErrNil \<and> err \<noteq> ErrNone then (Inl StoreError, s1)
          else
            let lastScore = (if err = ErrNil then - 1 else v) in
            (case ZRangeByScoreWithScores (Some lastScore) s1 of
               (Inl e, s2) \<Rightarrow> (Inl e, s2)
             | (Inr scores, s2) \<Rightarrow>
                 if length scores \<le> 1 then
                   (case ZRangeByScoreWithScores None s2 of
                      (Inl e, s3) \<Rightarrow> (Inl e, s3)
                    | (Inr scores', s3) \<Rightarrow> (Inr (lastScore, scores'), s3))
                 else (Inr (lastScore, scores), s2)))"

definition pick :: "int \<Rightarrow> (string \<times> int) list \<Rightarrow> world \<Rightarrow> (error + string \<times> int) \<times> world" where
  \<comment> \<open>lines 135-182\<close>
  "pick lastScore scores s =
     (case first_pass lastScore scores s of
        (Inl e, s1) \<Rightarrow> (Inl e, s1)
      | (Inr (selectedPhone, selectedScore), s1) \<Rightarrow>
          (case (if selectedPhone = '''' then second_pass scores s1
                 else (Inr (selectedPhone, selectedScore), s1)) of
             (Inl e, s2) \<Rightarrow> (Inl e, s2)
           | (Inr (selectedPhone', selectedScore'), s2) \<Rightarrow>
               if selectedPhone' = '''' then (Inl AllResourcesLeased, s2)
               else (Inr (selectedPhone', selectedScore'), s2)))"

definition commit :: "string \<Rightarrow> int \<Rightarrow> world \<Rightarrow> (error + string) \<times> world" where
  \<comment> \<open>lines 184-197\<close>
  "commit selectedPhone selectedScore s =
     (case Set lastUsedIndexKey selectedScore s of
        (Some e, s1) \<Rightarrow> (Inl e, s1)
      | (None, s1) \<Rightarrow>
          (case Incr (counterKeyPrefix @ selectedPhone) s1 of
             (Inl e, s2) \<Rightarrow> (Inl e, s2)
           | (Inr n, s2) \<Rightarrow> (Inr selectedPhone, s2)))"

definition critical :: "world \<Rightarrow> (error + string) \<times> world" where
  \<comment> \<open>lines 107-197, the body of \<^verbatim>\<open>if locked\<close> without the deferred \<^verbatim>\<open>Del\<close>\<close>
  "critical s =
     (case candidates s of
        (Inl e, s1) \<Rightarrow> (Inl e, s1)
      | (Inr (lastScore, scores), s1) \<Rightarrow>
          (case pick lastScore scores s1 of
             (Inl e, s2) \<Rightarrow> (Inl e, s2)
           | (Inr (selectedPhone, selectedScore), s2) \<Rightarrow> commit selectedPhone selectedScore s2))"

function acquire :: "nat \<Rightarrow> world \<Rightarrow> (error + string) \<times> world" where
  \<comment> \<open>lines 99-205: the retry loop, \<open>i\<close> the loop variable\<close>
  "acquire i s =
     (if i < maxRetries then
        (case SetNX defaultLockKey lockDuration s of
           (Inl e, s1) \<Rightarrow> (Inl e, s1)
         | (Inr locked, s1) \<Rightarrow>
             if locked then (case critical s1 of (r, s2) \<Rightarrow> (r, Del defaultLockKey s2))
             else if i < maxRetries - 1 then acquire (i + 1) (Sleep timeDelay s1)
             else acquire (i + 1) s1)
      else (Inl LockTimeout, s))"
  by pat_completeness auto
termination
  by (relation "measure (\<lambda>(i, s). maxRetries - i)") auto

declare acquire.simps [simp del]

definition GetNextPhoneNumber :: "world \<Rightarrow> (error + string) \<times> world" where
  "GetNextPhoneNumber s =
     (case ZCard s of
        (Inl e, s1) \<Rightarrow> (Inl e, s1)
      | (Inr n, s1) \<Rightarrow>
          if n = 0 then (Inl NoResourcesAvailable, s1) else acquire 0 s1)"

section \<open>Histories\<close>

text \<open>
  A history is what one client does to the store, in order: the three operations of the
  package, and time passing between them. \<open>fresh\<close> is the database after
  \<^verbatim>\<open>FLUSHALL\<close>, with no failure scheduled.
\<close>

datatype op = Add string | Lease string nat | Select | Wait nat

datatype outcome = Refused error | Accepted | Selected string

definition fresh :: world where
  "fresh = \<lparr>zset = [], kv = (\<lambda>k. None), clock = 0, faults = [], trace = []\<rparr>"

fun step :: "op \<Rightarrow> world \<Rightarrow> outcome \<times> world" where
  "step (Add number) s =
     (case AddPhoneNumber number s of
        (None, s') \<Rightarrow> (Accepted, s')
      | (Some e, s') \<Rightarrow> (Refused e, s'))"
| "step (Lease number ttl) s =
     (case SetPhoneNumberLockLimited number ttl s of
        (None, s') \<Rightarrow> (Accepted, s')
      | (Some e, s') \<Rightarrow> (Refused e, s'))"
| "step Select s =
     (case GetNextPhoneNumber s of
        (Inl e, s') \<Rightarrow> (Refused e, s')
      | (Inr phone, s') \<Rightarrow> (Selected phone, s'))"
| "step (Wait d) s = (Accepted, s\<lparr>clock := clock s + d\<rparr>)"

fun exec :: "op list \<Rightarrow> world \<Rightarrow> outcome list \<times> world" where
  "exec [] s = ([], s)"
| "exec (x # xs) s =
     (case step x s of
        (r, s1) \<Rightarrow> (case exec xs s1 of (rs, s2) \<Rightarrow> (r # rs, s2)))"

definition cursor :: "world \<Rightarrow> int option" where
  "cursor s = lookup (clock s) (kv s lastUsedIndexKey)"

definition usage :: "world \<Rightarrow> string \<Rightarrow> int option" where
  \<comment> \<open>what \<^verbatim>\<open>client.Get(ctx, "message_gateway:counter:" + phone)\<close> reads\<close>
  "usage s phone = lookup (clock s) (kv s (counterKeyPrefix @ phone))"

definition leased :: "world \<Rightarrow> string \<Rightarrow> bool" where
  "leased s phone = live s (phoneLockLimitedKeyPrefix @ phone)"

text \<open>
  \<open>ranked xs\<close> is the pool that holds the numbers \<open>xs\<close> with the ranks 0, 1, 2, ... in
  that order. \<open>next_rank\<close> is the rank the specification gives a new resource: one more
  than the current maximum, or 0 for an empty pool. \<open>accepted\<close> keeps the numbers whose
  operation succeeded.
\<close>

definition ranked :: "string list \<Rightarrow> (string \<times> int) list" where
  "ranked xs = zip xs (map int [0..<length xs])"

definition next_rank :: "(string \<times> int) list \<Rightarrow> int" where
  "next_rank zs = (if zs = [] then 0 else 1 + Max (snd ` set zs))"

definition accepted :: "string list \<Rightarrow> outcome list \<Rightarrow> string list" where
  "accepted ids rs = map fst (filter (\<lambda>p. snd p = Accepted) (zip ids rs))"

text \<open>
  Reading a trace. \<open>since s s'\<close> is what a run from \<open>s\<close> to \<open>s'\<close> added to the trace.
  \<open>attempts\<close> are the replies to the mutex acquisitions in it, \<open>waits\<close> its acquisitions
  and sleeps in order, and \<open>rounds k\<close> the pattern of \<open>k\<close> acquisitions with one sleep of
  \<open>timeDelay\<close> between each two. \<open>aborted\<close> holds when a failed command is followed by
  nothing but the deferred release of the mutex.
\<close>

definition since :: "world \<Rightarrow> world \<Rightarrow> (cmd \<times> reply) list" where
  "since s s' = drop (length (trace s)) (trace s')"

definition is_attempt :: "cmd \<Rightarrow> bool" where
  "is_attempt c = (c = SETNX defaultLockKey lockDuration)"

definition is_sleep :: "cmd \<Rightarrow> bool" where
  "is_sleep c = (case c of SLEEP d \<Rightarrow> True | _ \<Rightarrow> False)"





definition clean :: "(cmd \<times> reply) list \<Rightarrow> bool" where
  "clean es = list_all (\<lambda>e. snd e \<noteq> Failed) es"

definition tidy :: "(cmd \<times> reply) list \<Rightarrow> bool" where
  \<comment> \<open>no acquisition and no sleep, and a failed command only at the very end\<close>
  "tidy es = (list_all (\<lambda>e. \<not> is_attempt (fst e) \<and> \<not> is_sleep (fst e)) es \<and> clean (butlast es))"

definition bump :: "nat \<Rightarrow> (int \<times> nat option) option \<Rightarrow> int \<times> nat option" where
  \<comment> \<open>the entry \<^verbatim>\<open>INCR\<close> leaves at time \<open>now\<close>\<close>
  "bump now e =
     (case lookup now e of
        None \<Rightarrow> (1, None)
      | Some v \<Rightarrow> (v + 1, case e of None \<Rightarrow> None | Some x \<Rightarrow> snd x))"

text \<open>
  The selection as a function of the state, for a store that answers: \<open>last_score\<close> is the
  cursor the critical section reads, \<open>walked\<close> the list its two loops walk, and \<open>chosen\<close>
  the entry they end with (the empty name when they find none).
\<close>

definition last_score :: "world \<Rightarrow> int" where
  "last_score s = (case cursor s of None \<Rightarrow> - 1 | Some v \<Rightarrow> v)"

definition walked :: "world \<Rightarrow> (string \<times> int) list" where
  "walked s =
     (if length (filter (in_range (Some (last_score s))) (zset s)) \<le> 1 then zset s
      else filter (in_range (Some (last_score s))) (zset s))"

definition free :: "world \<Rightarrow> string \<times> int \<Rightarrow> bool" where
  "free s z = (\<not> leased s (fst z))"

definition found :: "(string \<times> int) option \<Rightarrow> string \<times> int" where
  "found x = (case x of None \<Rightarrow> ('''', 0) | Some z \<Rightarrow> z)"

definition chosen :: "world \<Rightarrow> string \<times> int" where
  "chosen s =
     (if fst (found (find (\<lambda>z. last_score s < snd z \<and> free s z) (walked s))) = ''''
      then found (find (free s) (walked s))
      else found (find (\<lambda>z. last_score s < snd z \<and> free s z) (walked s)))"

text \<open>
  Three small stores on which the theorems are tried: the numbers A and B with the ranks
  0 and 1, nothing selected yet; the same with B leased for an hour; the same with both
  leased.
\<close>

definition two_numbers :: world where
  "two_numbers =
     \<lparr>zset = [(''A'', 0), (''B'', 1)], kv = (\<lambda>k. None), clock = 0, faults = [], trace = []\<rparr>"

definition second_leased :: world where
  "second_leased =
     two_numbers\<lparr>kv := (\<lambda>k. None)(phoneLockLimitedKeyPrefix @ ''B'' \<mapsto> (1, Some 3600000))\<rparr>"

definition both_leased :: world where
  "both_leased =
     two_numbers\<lparr>kv := (\<lambda>k. None)(phoneLockLimitedKeyPrefix @ ''A'' \<mapsto> (1, Some 3600000),
                                    phoneLockLimitedKeyPrefix @ ''B'' \<mapsto> (1, Some 3600000))\<rparr>"


text \<open>
  The range queries of a trace, in order, with their replies. \<open>from_cursor\<close> is the part
  of the pool from the cursor's rank on, the cursor's own rank included. \<open>strictly_after\<close>
  is the set the specification calls A: the members whose rank is strictly greater than
  the cursor. \<open>first_selected\<close> is the store \<open>two_numbers\<close> after A has been selected
  once.
\<close>

definition is_query :: "cmd \<Rightarrow> bool" where
  "is_query c = (case c of ZRANGEBYSCORE lo \<Rightarrow> True | _ \<Rightarrow> False)"

definition queries :: "(cmd \<times> reply) list \<Rightarrow> (cmd \<times> reply) list" where
  "queries es = filter (\<lambda>e. is_query (fst e)) es"

definition from_cursor :: "world \<Rightarrow> (string \<times> int) list" where
  "from_cursor s = filter (\<lambda>z. last_score s \<le> snd z) (zset s)"

definition strictly_after :: "world \<Rightarrow> (string \<times> int) list" where
  "strictly_after s = filter (\<lambda>z. last_score s < snd z) (zset s)"

definition first_selected :: world where
  "first_selected =
     two_numbers\<lparr>kv := (\<lambda>k. None)(lastUsedIndexKey \<mapsto> (0, None),
                                    counterKeyPrefix @ ''A'' \<mapsto> (1, None))\<rparr>"

definition second_selected :: world where
  \<comment> \<open>\<open>two_numbers\<close> after A and then B have been selected\<close>
  "second_selected =
     two_numbers\<lparr>kv := (\<lambda>k. None)(lastUsedIndexKey \<mapsto> (1, None),
                                    counterKeyPrefix @ ''A'' \<mapsto> (1, None),
                                    counterKeyPrefix @ ''B'' \<mapsto> (1, None))\<rparr>"

text \<open>
  \<open>ready\<close>: the store answers, nobody holds the mutex, no member of the pool is leased,
  no member is the empty name, and the pool is in strictly ascending rank order.
\<close>

definition ready :: "world \<Rightarrow> bool" where
  "ready s =
     (faults s = [] \<and> \<not> live s defaultLockKey \<and> list_all (free s) (zset s)
      \<and> '''' \<notin> fst ` set (zset s) \<and> sorted_wrt (<) (map snd (zset s)))"

text \<open>
  Two more stores: the numbers A, B, C and D with B leased for an hour, nothing selected
  yet; and the numbers A, B and C with the cursor on B while B and C are leased.
\<close>

definition four_numbers :: world where
  "four_numbers =
     \<lparr>zset = [(''A'', 0), (''B'', 1), (''C'', 2), (''D'', 3)],
      kv = (\<lambda>k. None)(phoneLockLimitedKeyPrefix @ ''B'' \<mapsto> (1, Some 3600000)),
      clock = 0, faults = [], trace = []\<rparr>"

definition tail_leased :: world where
  "tail_leased =
     \<lparr>zset = [(''A'', 0), (''B'', 1), (''C'', 2)],
      kv = (\<lambda>k. None)(lastUsedIndexKey \<mapsto> (1, None),
                        phoneLockLimitedKeyPrefix @ ''B'' \<mapsto> (1, Some 3600000),
                        phoneLockLimitedKeyPrefix @ ''C'' \<mapsto> (1, Some 3600000)),
      clock = 0, faults = [], trace = []\<rparr>"

section \<open>Basic facts about the store\<close>


lemma keys_distinct:
  "defaultLockKey \<noteq> lastUsedIndexKey"
  "counterKeyPrefix @ p \<noteq> defaultLockKey"
  "counterKeyPrefix @ p \<noteq> lastUsedIndexKey"
  "counterKeyPrefix @ p \<noteq> phoneLockLimitedKeyPrefix @ q"
  "phoneLockLimitedKeyPrefix @ p \<noteq> defaultLockKey"
  "phoneLockLimitedKeyPrefix @ p \<noteq> lastUsedIndexKey"
  "defaultPhoneNumbersKey \<noteq> defaultLockKey"
  "defaultPhoneNumbersKey \<noteq> lastUsedIndexKey"
  "defaultPhoneNumbersKey \<noteq> counterKeyPrefix @ p"
  "defaultPhoneNumbersKey \<noteq> phoneLockLimitedKeyPrefix @ p"
  by (simp_all add: defaultLockKey_def lastUsedIndexKey_def counterKeyPrefix_def
        phoneLockLimitedKeyPrefix_def defaultPhoneNumbersKey_def)

lemma logged_fields:
  "zset (logged c r s) = zset s"
  "kv (logged c r s) = kv s"
  "clock (logged c r s) = clock s"
  "faults (logged c r s) = tl (faults s)"
  "trace (logged c r s) = trace s @ [(c, r)]"
  by (simp_all add: logged_def)

lemma live_logged: "live (logged c r s) k = live s k"
  by (simp add: live_def logged_fields)

lemma failing_Nil: "faults s = [] \<Longrightarrow> \<not> failing s"
  by (simp add: failing_def)

lemma ranked_snoc: "ranked (xs @ [x]) = ranked xs @ [(x, int (length xs))]"
  by (simp add: ranked_def)

lemma map_fst_ranked: "map fst (ranked xs) = xs"
  by (simp add: ranked_def)

lemma map_snd_ranked: "map snd (ranked xs) = map int [0..<length xs]"
  by (simp add: ranked_def)

lemma fst_set_ranked: "fst ` set (ranked xs) = set xs"
  using map_fst_ranked[of xs] by (metis set_map)

lemma zinsert_last: "\<forall>z \<in> set zs. snd z < sc \<Longrightarrow> zinsert (x, sc) zs = zs @ [(x, sc)]"
  by (induction zs) (auto simp: zbefore_def)

lemma ranked_scores: "z \<in> set (ranked xs) \<Longrightarrow> 0 \<le> snd z \<and> snd z < int (length xs)"
proof -
  assume "z \<in> set (ranked xs)"
  then have "snd z \<in> set (map snd (ranked xs))" by (metis image_eqI set_map)
  then show ?thesis by (auto simp: map_snd_ranked)
qed

lemma filter_absent: "x \<notin> fst ` set zs \<Longrightarrow> filter (\<lambda>z. fst z \<noteq> x) zs = zs"
  by (induction zs) auto

lemma rev_ranked_top:
  "(case rev (ranked xs) of [] \<Rightarrow> 0 | z # _ \<Rightarrow> snd z + 1) = int (length xs)"
  by (cases xs rule: rev_cases) (simp_all add: ranked_def)

lemma AddPhoneNumber_new:
  assumes "zset s = ranked xs" and "number \<notin> set xs" and "AddPhoneNumber number s = (r, s')"
  shows "(r = None \<and> zset s' = ranked (xs @ [number])) \<or> (r = Some StoreError \<and> zset s' = zset s)"
proof -
  have absent: "map_of (zset s) number = None"
    using assms(1,2) by (simp add: map_of_eq_None_iff fst_set_ranked)
  have ins: "zinsert (number, int (length xs)) (filter (\<lambda>z. fst z \<noteq> number) (ranked xs))
      = ranked (xs @ [number])"
    using assms(2) ranked_scores[of _ xs]
    by (simp add: filter_absent zinsert_last ranked_snoc fst_set_ranked)
  show ?thesis
    using assms(3) absent ins rev_ranked_top[of xs]
    by (auto simp: AddPhoneNumber_def ZScore_def ZRevRangeWithScores_0_0_def ZAdd_def
        logged_fields assms(1) Let_def split: if_splits list.splits)
qed


lemma next_rank_ranked: "next_rank (ranked xs) = int (length xs)"
proof (cases "xs = []")
  case True
  then show ?thesis by (simp add: next_rank_def ranked_def)
next
  case False
  have img: "snd ` set (ranked xs) = int ` {0..<length xs}"
    using map_snd_ranked[of xs] by (metis set_map set_upt)
  have "Max (int ` {0..<length xs}) = int (length xs) - 1"
  proof (rule Max_eqI)
    show "finite (int ` {0..<length xs})" by simp
    show "\<And>y. y \<in> int ` {0..<length xs} \<Longrightarrow> y \<le> int (length xs) - 1" by auto
    show "int (length xs) - 1 \<in> int ` {0..<length xs}"
      using False by (cases xs) (auto simp: image_iff intro!: bexI[of _ "length xs - 1"])
  qed
  moreover have "ranked xs \<noteq> []" using False by (simp add: ranked_def)
  ultimately show ?thesis by (simp add: next_rank_def img)
qed

lemma AddPhoneNumber_new_reliable:
  assumes "zset s = ranked xs" and "number \<notin> set xs" and "faults s = []"
  shows "fst (AddPhoneNumber number s) = None \<and> faults (snd (AddPhoneNumber number s)) = []"
proof -
  have absent: "map_of (zset s) number = None"
    using assms(1,2) by (simp add: map_of_eq_None_iff fst_set_ranked)
  show ?thesis
    using absent assms(3)
    by (simp add: AddPhoneNumber_def ZScore_def ZRevRangeWithScores_0_0_def ZAdd_def
        logged_fields failing_def Let_def split: list.splits)
qed

lemma accepted_Cons:
  "accepted (a # ids) (r # rs) = (if r = Accepted then a # accepted ids rs else accepted ids rs)"
  by (simp add: accepted_def)

lemma accepted_subset: "set (accepted ids rs) \<subseteq> set ids"
  unfolding accepted_def by (auto dest: set_zip_leftD)

lemma distinct_accepted: "distinct ids \<Longrightarrow> distinct (accepted ids rs)"
  unfolding accepted_def
  by (rule distinct_map_filter) (simp add: map_fst_zip_take)

lemma sorted_ranked: "sorted_wrt (<) (map snd (ranked xs))"
  by (simp add: map_snd_ranked sorted_wrt_map)

lemma step_Add_new:
  assumes "zset s = ranked xs" and "a \<notin> set xs" and "step (Add a) s = (r, s1)"
  shows "zset s1 = ranked (if r = Accepted then xs @ [a] else xs)"
  using AddPhoneNumber_new[OF assms(1,2), of "fst (AddPhoneNumber a s)" "snd (AddPhoneNumber a s)"] assms(1,3)
  by (auto split: option.splits prod.splits)

lemma exec_adds:
  "distinct ids \<Longrightarrow> set ids \<inter> set xs = {} \<Longrightarrow> zset s = ranked xs \<Longrightarrow>
   zset (snd (exec (map Add ids) s)) = ranked (xs @ accepted ids (fst (exec (map Add ids) s)))"
proof (induction ids arbitrary: s xs)
  case Nil
  then show ?case by (simp add: accepted_def)
next
  case (Cons a ids)
  obtain r s1 where st: "step (Add a) s = (r, s1)" by (cases "step (Add a) s")
  obtain rs s2 where ex: "exec (map Add ids) s1 = (rs, s2)" by (cases "exec (map Add ids) s1")
  have a: "a \<notin> set xs" using Cons.prems(2) by auto
  let ?xs = "if r = Accepted then xs @ [a] else xs"
  have z1: "zset s1 = ranked ?xs" using step_Add_new[OF Cons.prems(3) a st] .
  have "set ids \<inter> set ?xs = {}" using Cons.prems(1,2) by auto
  from Cons.IH[OF _ this z1] Cons.prems(1) ex
  have "zset s2 = ranked (?xs @ accepted ids rs)" by simp
  then show ?case using st ex by (simp add: accepted_Cons del: step.simps)
qed

lemma exec_adds_reliable:
  "distinct ids \<Longrightarrow> set ids \<inter> set xs = {} \<Longrightarrow> zset s = ranked xs \<Longrightarrow> faults s = [] \<Longrightarrow>
   fst (exec (map Add ids) s) = map (\<lambda>i. Accepted) ids"
proof (induction ids arbitrary: s xs)
  case Nil
  then show ?case by simp
next
  case (Cons a ids)
  have a: "a \<notin> set xs" using Cons.prems(2) by auto
  obtain r s1 where ap: "AddPhoneNumber a s = (r, s1)" by (cases "AddPhoneNumber a s")
  from AddPhoneNumber_new_reliable[OF Cons.prems(3) a Cons.prems(4)] ap
  have r: "r = None" and f1: "faults s1 = []" by simp_all
  from AddPhoneNumber_new[OF Cons.prems(3) a ap] r
  have z1: "zset s1 = ranked (xs @ [a])" by simp
  have "set ids \<inter> set (xs @ [a]) = {}" using Cons.prems(1,2) by auto
  from Cons.IH[OF _ this z1 f1] Cons.prems(1)
  have "fst (exec (map Add ids) s1) = map (\<lambda>i. Accepted) ids" by simp
  then show ?case using ap r by (auto split: prod.splits)
qed

subsection \<open>Traces and commands\<close>

lemma tidy_Nil: "tidy []" by (simp add: tidy_def clean_def)

lemma tidy_single: "\<not> is_attempt c \<Longrightarrow> \<not> is_sleep c \<Longrightarrow> tidy [(c, r)]"
  by (simp add: tidy_def clean_def)

lemma clean_append: "clean (xs @ ys) = (clean xs \<and> clean ys)"
  by (simp add: clean_def)

lemma tidy_append: "tidy xs \<Longrightarrow> clean xs \<Longrightarrow> tidy ys \<Longrightarrow> tidy (xs @ ys)"
  by (cases "ys = []") (auto simp: tidy_def clean_def butlast_append)

lemma tidy_Cons: "\<not> is_attempt c \<Longrightarrow> \<not> is_sleep c \<Longrightarrow> r \<noteq> Failed \<Longrightarrow> tidy ys \<Longrightarrow> tidy ((c, r) # ys)"
  using tidy_append[of "[(c, r)]" ys] by (simp add: tidy_single clean_def)

lemma not_wait:
  "\<not> is_attempt (EXISTS k)" "\<not> is_sleep (EXISTS k)"
  "\<not> is_attempt (GET k)" "\<not> is_sleep (GET k)"
  "\<not> is_attempt (SET k v)" "\<not> is_sleep (SET k v)"
  "\<not> is_attempt (INCR k)" "\<not> is_sleep (INCR k)"
  "\<not> is_attempt (DEL k)" "\<not> is_sleep (DEL k)"
  "\<not> is_attempt (ZRANGEBYSCORE lo)" "\<not> is_sleep (ZRANGEBYSCORE lo)"
  "\<not> is_attempt ZCARD" "\<not> is_sleep ZCARD"
  "is_attempt (SETNX defaultLockKey lockDuration)" "\<not> is_sleep (SETNX k d)"
  "\<not> is_attempt (SLEEP d)" "is_sleep (SLEEP d)"
  by (simp_all add: is_attempt_def is_sleep_def)

text \<open>What each command does to the data and to the trace.\<close>

lemma Exists_effect:
  assumes "Exists key s = (r, s')"
  shows "zset s' = zset s \<and> kv s' = kv s \<and> clock s' = clock s \<and> faults s' = tl (faults s)
       \<and> (\<exists>x. trace s' = trace s @ [(EXISTS key, x)] \<and> (x = Failed \<longleftrightarrow> r = Inl StoreError))
       \<and> (\<forall>n. r = Inr n \<longrightarrow> (n = 0) = (\<not> live s key))
       \<and> (\<forall>e. r = Inl e \<longrightarrow> e = StoreError \<and> failing s)
       \<and> (\<not> failing s \<longrightarrow> r = Inr (if live s key then 1 else 0))"
  using assms by (auto simp: Exists_def logged_fields Let_def split: if_splits)

lemma first_pass_effect:
  "first_pass lastScore zs s = (r, s') \<Longrightarrow>
     zset s' = zset s \<and> kv s' = kv s \<and> clock s' = clock s
     \<and> (\<exists>es. trace s' = trace s @ es \<and> tidy es \<and> (r \<noteq> Inl StoreError \<longrightarrow> clean es))
     \<and> (\<forall>p c. r = Inr (p, c) \<and> p \<noteq> '''' \<longrightarrow>
           (p, c) \<in> set zs \<and> lastScore < c \<and> \<not> live s (phoneLockLimitedKeyPrefix @ p))
     \<and> (\<forall>e. r = Inl e \<longrightarrow> e = StoreError)"
proof (induction zs arbitrary: s)
  case Nil
  then show ?case by (auto simp: tidy_Nil clean_def)
next
  case (Cons z zs)
  obtain phone score where z: "z = (phone, score)" by (cases z)
  show ?case
  proof (cases "score \<le> lastScore")
    case True
    with Cons.prems z have "first_pass lastScore zs s = (r, s')" by simp
    from Cons.IH[OF this] show ?thesis by auto
  next
    case False
    obtain x s1 where ex: "Exists (phoneLockLimitedKeyPrefix @ phone) s = (x, s1)"
      by (cases "Exists (phoneLockLimitedKeyPrefix @ phone) s")
    note eff = Exists_effect[OF ex]
    from eff obtain y where tr1: "trace s1 = trace s @ [(EXISTS (phoneLockLimitedKeyPrefix @ phone), y)]"
      and y: "y = Failed \<longleftrightarrow> x = Inl StoreError" by blast
    show ?thesis
    proof (cases x)
      case (Inl e)
      with Cons.prems z False ex have "r = Inl e" "s' = s1" by simp_all
      moreover have "e = StoreError" using eff Inl by simp
      ultimately show ?thesis using eff tr1 by (auto simp: tidy_single not_wait)
    next
      case (Inr n)
      then have yc: "y \<noteq> Failed" using y by simp
      show ?thesis
      proof (cases "n = 0")
        case True
        with Cons.prems z False ex Inr have "r = Inr (phone, score)" "s' = s1" by simp_all
        then show ?thesis using eff tr1 Inr True False z yc
          by (auto simp: tidy_single not_wait clean_def)
      next
        case nz: False
        with Cons.prems z False ex Inr have "first_pass lastScore zs s1 = (r, s')" by simp
        from Cons.IH[OF this] obtain es where
          ih: "zset s' = zset s1" "kv s' = kv s1" "clock s' = clock s1"
            "trace s' = trace s1 @ es" "tidy es" "r \<noteq> Inl StoreError \<longrightarrow> clean es"
            "\<forall>p c. r = Inr (p, c) \<and> p \<noteq> '''' \<longrightarrow>
               (p, c) \<in> set zs \<and> lastScore < c \<and> \<not> live s1 (phoneLockLimitedKeyPrefix @ p)"
            "\<forall>e. r = Inl e \<longrightarrow> e = StoreError"
          by blast
        have l: "live s1 k = live s k" for k using eff by (simp add: live_def)
        have "trace s' = trace s @ (EXISTS (phoneLockLimitedKeyPrefix @ phone), y) # es"
          using ih(4) tr1 by simp
        moreover have "tidy ((EXISTS (phoneLockLimitedKeyPrefix @ phone), y) # es)"
          using ih(5) yc by (simp add: tidy_Cons not_wait)
        moreover have "r \<noteq> Inl StoreError \<longrightarrow> clean ((EXISTS (phoneLockLimitedKeyPrefix @ phone), y) # es)"
          using ih(6) yc by (simp add: clean_def)
        ultimately show ?thesis using ih eff l z by auto
      qed
    qed
  qed
qed

lemma first_pass_below:
  "\<forall>z \<in> set zs. l < snd z \<Longrightarrow> first_pass l zs s = second_pass zs s"
proof (induction zs arbitrary: s)
  case Nil
  then show ?case by simp
next
  case (Cons z zs)
  obtain phone score where z: "z = (phone, score)" by (cases z)
  with Cons.prems have "\<not> score \<le> l" by auto
  moreover have "\<And>s. first_pass l zs s = second_pass zs s" using Cons by simp
  ultimately show ?case using z by (simp split: prod.splits sum.splits)
qed

lemma below_all: "\<exists>l::int. \<forall>z \<in> set zs. l < snd z"
proof (induction zs)
  case Nil
  then show ?case by simp
next
  case (Cons z zs)
  then obtain l where "\<forall>z \<in> set zs. l < snd z" by blast
  then have "\<forall>y \<in> set (z # zs). min l (snd z - 1) < snd y" by auto
  then show ?case by blast
qed

lemma second_pass_effect:
  assumes "second_pass zs s = (r, s')"
  shows "zset s' = zset s \<and> kv s' = kv s \<and> clock s' = clock s
     \<and> (\<exists>es. trace s' = trace s @ es \<and> tidy es \<and> (r \<noteq> Inl StoreError \<longrightarrow> clean es))
     \<and> (\<forall>p c. r = Inr (p, c) \<and> p \<noteq> '''' \<longrightarrow>
           (p, c) \<in> set zs \<and> \<not> live s (phoneLockLimitedKeyPrefix @ p))
     \<and> (\<forall>e. r = Inl e \<longrightarrow> e = StoreError)"
proof -
  obtain l where "\<forall>z \<in> set zs. l < snd z" using below_all by blast
  then have "first_pass l zs s = (r, s')" using assms by (simp add: first_pass_below)
  from first_pass_effect[OF this] show ?thesis by blast
qed

lemma Get_effect:
  assumes "Get key s = ((v, err), s')"
  shows "zset s' = zset s \<and> kv s' = kv s \<and> clock s' = clock s \<and> faults s' = tl (faults s)
       \<and> (\<exists>x. trace s' = trace s @ [(GET key, x)] \<and> (x = Failed \<longleftrightarrow> err = ErrIO)
              \<and> (err = ErrNil \<longrightarrow> x = Nil) \<and> (err = ErrNone \<longrightarrow> x = Num v))
       \<and> (err = ErrNil \<longrightarrow> lookup (clock s) (kv s key) = None)
       \<and> (err = ErrNone \<longrightarrow> lookup (clock s) (kv s key) = Some v)
       \<and> (err = ErrIO \<longleftrightarrow> failing s)"
  using assms by (auto simp: Get_def logged_fields split: if_splits option.splits)

lemma ZRangeByScoreWithScores_effect:
  assumes "ZRangeByScoreWithScores lo s = (r, s')"
  shows "zset s' = zset s \<and> kv s' = kv s \<and> clock s' = clock s \<and> faults s' = tl (faults s)
       \<and> (\<exists>x. trace s' = trace s @ [(ZRANGEBYSCORE lo, x)] \<and> (x = Failed \<longleftrightarrow> r = Inl StoreError)
              \<and> (\<forall>zs. r = Inr zs \<longrightarrow> x = Entries zs))
       \<and> (\<forall>zs. r = Inr zs \<longrightarrow> zs = filter (in_range lo) (zset s))
       \<and> (\<forall>e. r = Inl e \<longrightarrow> e = StoreError \<and> failing s)
       \<and> (\<not> failing s \<longrightarrow> r = Inr (filter (in_range lo) (zset s)))"
  using assms by (auto simp: ZRangeByScoreWithScores_def logged_fields Let_def split: if_splits)

lemma Set_effect:
  assumes "Set key v s = (r, s')"
  shows "zset s' = zset s \<and> clock s' = clock s \<and> faults s' = tl (faults s)
       \<and> (\<exists>x. trace s' = trace s @ [(SET key v, x)] \<and> (x = Failed \<longleftrightarrow> r = Some StoreError))
       \<and> (r = None \<longrightarrow> kv s' = (kv s)(key \<mapsto> (v, None)))
       \<and> (\<forall>e. r = Some e \<longrightarrow> e = StoreError \<and> kv s' = kv s \<and> failing s)
       \<and> (\<not> failing s \<longrightarrow> r = None)"
  using assms by (auto simp: Set_def logged_fields split: if_splits)

lemma Incr_effect:
  assumes "Incr key s = (r, s')"
  shows "zset s' = zset s \<and> clock s' = clock s \<and> faults s' = tl (faults s)
       \<and> (\<exists>x. trace s' = trace s @ [(INCR key, x)] \<and> (x = Failed \<longleftrightarrow> r = Inl StoreError))
       \<and> (\<forall>n. r = Inr n \<longrightarrow> kv s' = (kv s)(key \<mapsto> bump (clock s) (kv s key)))
       \<and> (\<forall>e. r = Inl e \<longrightarrow> e = StoreError \<and> kv s' = kv s \<and> failing s)
       \<and> (\<not> failing s \<longrightarrow> (\<exists>n. r = Inr n))"
  using assms by (auto simp: Incr_def logged_fields bump_def split: if_splits option.splits)

lemma SetNX_effect:
  assumes "SetNX key ttl s = (r, s')"
  shows "zset s' = zset s \<and> clock s' = clock s \<and> faults s' = tl (faults s)
       \<and> (\<exists>x. trace s' = trace s @ [(SETNX key ttl, x)] \<and> (x = Failed \<longleftrightarrow> r = Inl StoreError)
              \<and> (\<forall>b. r = Inr b \<longrightarrow> x = Flag b))
       \<and> (\<forall>k. k \<noteq> key \<longrightarrow> kv s' k = kv s k)
       \<and> (r = Inr True \<longrightarrow> \<not> live s key \<and> kv s' = (kv s)(key \<mapsto> (1, expiry (clock s) ttl)))
       \<and> (r \<noteq> Inr True \<longrightarrow> kv s' = kv s)
       \<and> (r = Inr False \<longrightarrow> live s key)
       \<and> (\<forall>e. r = Inl e \<longrightarrow> e = StoreError \<and> failing s)
       \<and> (\<not> failing s \<longrightarrow> r = Inr (\<not> live s key))"
  using assms by (auto simp: SetNX_def logged_fields split: if_splits)

lemma Del_effect:
  "zset (Del key s) = zset s \<and> clock (Del key s) = clock s \<and> faults (Del key s) = tl (faults s)
       \<and> (\<exists>x. trace (Del key s) = trace s @ [(DEL key, x)])
       \<and> (\<forall>k. k \<noteq> key \<longrightarrow> kv (Del key s) k = kv s k)
       \<and> (\<not> failing s \<longrightarrow> kv (Del key s) key = None)"
  by (auto simp: Del_def logged_fields)

lemma ZCard_effect:
  assumes "ZCard s = (r, s')"
  shows "zset s' = zset s \<and> kv s' = kv s \<and> clock s' = clock s \<and> faults s' = tl (faults s)
       \<and> (\<exists>x. trace s' = trace s @ [(ZCARD, x)] \<and> (x = Failed \<longleftrightarrow> r = Inl StoreError))
       \<and> (r = Inl StoreError \<or> r = Inr (int (length (zset s))))
       \<and> (\<forall>e. r = Inl e \<longrightarrow> e = StoreError \<and> failing s)
       \<and> (\<not> failing s \<longrightarrow> r = Inr (int (length (zset s))))"
  using assms by (auto simp: ZCard_def logged_fields split: if_splits)

subsection \<open>The critical section\<close>

lemma candidates_effect:
  assumes "candidates s = (r, s')"
  shows "zset s' = zset s \<and> kv s' = kv s \<and> clock s' = clock s
     \<and> (\<exists>es. trace s' = trace s @ es \<and> tidy es \<and> (r \<noteq> Inl StoreError \<longrightarrow> clean es))
     \<and> (\<forall>l zs. r = Inr (l, zs) \<longrightarrow> set zs \<subseteq> set (zset s))
     \<and> (\<forall>e. r = Inl e \<longrightarrow> e = StoreError)"
proof -
  obtain v err s1 where g: "Get lastUsedIndexKey s = ((v, err), s1)"
    by (metis prod.exhaust)
  from Get_effect[OF g] obtain x where
    d1: "zset s1 = zset s" "kv s1 = kv s" "clock s1 = clock s"
    and t1: "trace s1 = trace s @ [(GET lastUsedIndexKey, x)]" and x: "x = Failed \<longleftrightarrow> err = ErrIO"
    by blast
  show ?thesis
  proof (cases "err = ErrIO")
    case True
    then have "r = Inl StoreError" "s' = s1" using assms g by (simp_all add: candidates_def)
    then show ?thesis using d1 t1 by (simp add: tidy_single not_wait)
  next
    case False
    then have e: "err = ErrNil \<or> err = ErrNone" by (cases err) simp_all
    define l where "l = (if err = ErrNil then - 1 else v)"
    obtain y s2 where z: "ZRangeByScoreWithScores (Some l) s1 = (y, s2)" by (metis prod.exhaust)
    from ZRangeByScoreWithScores_effect[OF z] obtain x2 where
      d2: "zset s2 = zset s1" "kv s2 = kv s1" "clock s2 = clock s1"
      and t2: "trace s2 = trace s1 @ [(ZRANGEBYSCORE (Some l), x2)]"
      and x2: "x2 = Failed \<longleftrightarrow> y = Inl StoreError"
      and y: "\<forall>zs. y = Inr zs \<longrightarrow> zs = filter (in_range (Some l)) (zset s1)"
             "\<forall>e. y = Inl e \<longrightarrow> e = StoreError"
      by blast
    have xc: "x \<noteq> Failed" using x False by simp
    show ?thesis
    proof (cases y)
      case (Inl e)
      then have "r = Inl e" "s' = s2" using assms g z e
        by (auto simp: candidates_def l_def Let_def)
      moreover have "e = StoreError" using y Inl by simp
      ultimately show ?thesis using d1 d2 t1 t2 xc
        by (simp add: tidy_def clean_def not_wait)
    next
      case (Inr scores)
      then have x2c: "x2 \<noteq> Failed" using x2 by simp
      have sub: "set scores \<subseteq> set (zset s)" using y Inr d1 by auto
      show ?thesis
      proof (cases "length scores \<le> 1")
        case long: False
        then have "r = Inr (l, scores)" "s' = s2" using assms g z e Inr
          by (auto simp: candidates_def l_def Let_def)
        then show ?thesis using d1 d2 t1 t2 xc x2c sub
          by (simp add: tidy_def clean_def not_wait)
      next
        case True
        obtain y3 s3 where z3: "ZRangeByScoreWithScores None s2 = (y3, s3)" by (metis prod.exhaust)
        from ZRangeByScoreWithScores_effect[OF z3] obtain x3 where
          d3: "zset s3 = zset s2" "kv s3 = kv s2" "clock s3 = clock s2"
          and t3: "trace s3 = trace s2 @ [(ZRANGEBYSCORE None, x3)]"
          and x3: "x3 = Failed \<longleftrightarrow> y3 = Inl StoreError"
          and y3: "\<forall>zs. y3 = Inr zs \<longrightarrow> zs = filter (in_range None) (zset s2)"
             "\<forall>e. y3 = Inl e \<longrightarrow> e = StoreError"
          by blast
        show ?thesis
        proof (cases y3)
          case (Inl e)
          then have "r = Inl e" "s' = s3" using assms g z e Inr True z3
            by (auto simp: candidates_def l_def Let_def)
          moreover have "e = StoreError" using y3 Inl by simp
          ultimately show ?thesis using d1 d2 d3 t1 t2 t3 xc x2c
            by (simp add: tidy_def clean_def not_wait)
        next
          case r3: (Inr scores')
          then have "r = Inr (l, scores')" "s' = s3" using assms g z e Inr True z3
            by (auto simp: candidates_def l_def Let_def)
          moreover have "x3 \<noteq> Failed" using x3 r3 by simp
          moreover have "set scores' \<subseteq> set (zset s)" using y3 r3 d1 d2 by auto
          ultimately show ?thesis using d1 d2 d3 t1 t2 t3 xc x2c
            by (simp add: tidy_def clean_def not_wait)
        qed
      qed
    qed
  qed
qed

lemma pick_effect:
  assumes "pick l zs s = (r, s')"
  shows "zset s' = zset s \<and> kv s' = kv s \<and> clock s' = clock s
     \<and> (\<exists>es. trace s' = trace s @ es \<and> tidy es \<and> (r \<noteq> Inl StoreError \<longrightarrow> clean es))
     \<and> (\<forall>p c. r = Inr (p, c) \<longrightarrow>
           p \<noteq> '''' \<and> (p, c) \<in> set zs \<and> \<not> live s (phoneLockLimitedKeyPrefix @ p))
     \<and> (\<forall>e. r = Inl e \<longrightarrow> e = StoreError \<or> e = AllResourcesLeased)"
proof -
  obtain x s1 where f: "first_pass l zs s = (x, s1)" by (metis prod.exhaust)
  from first_pass_effect[OF f] obtain es1 where
    d1: "zset s1 = zset s" "kv s1 = kv s" "clock s1 = clock s"
    and t1: "trace s1 = trace s @ es1" "tidy es1" "x \<noteq> Inl StoreError \<longrightarrow> clean es1"
    and x: "\<forall>p c. x = Inr (p, c) \<and> p \<noteq> '''' \<longrightarrow>
           (p, c) \<in> set zs \<and> l < c \<and> \<not> live s (phoneLockLimitedKeyPrefix @ p)"
           "\<forall>e. x = Inl e \<longrightarrow> e = StoreError"
    by blast
  show ?thesis
  proof (cases x)
    case (Inl e)
    then have "r = Inl e" "s' = s1" using assms f by (simp_all add: pick_def)
    then show ?thesis using d1 t1 x Inl by auto
  next
    case (Inr sel)
    obtain p c where sel: "sel = (p, c)" by (cases sel)
    have c1: "clean es1" using t1(3) Inr by simp
    show ?thesis
    proof (cases "p = ''''")
      case False
      then have "r = Inr (p, c)" "s' = s1" using assms f Inr sel by (simp_all add: pick_def)
      then show ?thesis using d1 t1 x Inr sel False by auto
    next
      case True
      obtain y s2 where g: "second_pass zs s1 = (y, s2)" by (metis prod.exhaust)
      from second_pass_effect[OF g] obtain es2 where
        d2: "zset s2 = zset s1" "kv s2 = kv s1" "clock s2 = clock s1"
        and t2: "trace s2 = trace s1 @ es2" "tidy es2" "y \<noteq> Inl StoreError \<longrightarrow> clean es2"
        and y: "\<forall>p c. y = Inr (p, c) \<and> p \<noteq> '''' \<longrightarrow>
           (p, c) \<in> set zs \<and> \<not> live s1 (phoneLockLimitedKeyPrefix @ p)"
           "\<forall>e. y = Inl e \<longrightarrow> e = StoreError"
        by blast
      have tr: "trace s2 = trace s @ (es1 @ es2)" using t1 t2 by simp
      have td: "tidy (es1 @ es2)" using t1 t2 c1 by (simp add: tidy_append)
      have l: "live s1 k = live s k" for k using d1 by (simp add: live_def)
      show ?thesis
      proof (cases y)
        case (Inl e)
        then have "r = Inl e" "s' = s2" using assms f g Inr sel True by (simp_all add: pick_def)
        then show ?thesis using d1 d2 tr td y Inl by auto
      next
        case r2: (Inr sel')
        obtain p' c' where sel': "sel' = (p', c')" by (cases sel')
        have c2: "clean (es1 @ es2)" using c1 t2(3) r2 by (simp add: clean_append)
        show ?thesis
        proof (cases "p' = ''''")
          case True
          then have "r = Inl AllResourcesLeased" "s' = s2"
            using assms f g Inr sel \<open>p = ''''\<close> r2 sel' by (simp_all add: pick_def)
          then show ?thesis using d1 d2 tr td c2 by auto
        next
          case False
          then have "r = Inr (p', c')" "s' = s2"
            using assms f g Inr sel \<open>p = ''''\<close> r2 sel' by (simp_all add: pick_def)
          then show ?thesis using d1 d2 tr td c2 y r2 sel' False l by auto
        qed
      qed
    qed
  qed
qed

lemma commit_effect:
  assumes "commit p c s = (r, s')"
  shows "zset s' = zset s \<and> clock s' = clock s
     \<and> (\<exists>es. trace s' = trace s @ es \<and> tidy es \<and> (r \<noteq> Inl StoreError \<longrightarrow> clean es))
     \<and> (\<forall>q. r = Inr q \<longrightarrow> q = p \<and>
           kv s' = (kv s)(lastUsedIndexKey \<mapsto> (c, None),
                          counterKeyPrefix @ p \<mapsto> bump (clock s) (kv s (counterKeyPrefix @ p))))
     \<and> (\<forall>e. r = Inl e \<longrightarrow> e = StoreError \<and> (\<forall>k. k \<noteq> lastUsedIndexKey \<longrightarrow> kv s' k = kv s k))"
proof -
  obtain x s1 where f: "Set lastUsedIndexKey c s = (x, s1)" by (metis prod.exhaust)
  from Set_effect[OF f] obtain a where
    d1: "zset s1 = zset s" "clock s1 = clock s"
    and t1: "trace s1 = trace s @ [(SET lastUsedIndexKey c, a)]" "a = Failed \<longleftrightarrow> x = Some StoreError"
    and x: "x = None \<longrightarrow> kv s1 = (kv s)(lastUsedIndexKey \<mapsto> (c, None))"
           "\<forall>e. x = Some e \<longrightarrow> e = StoreError \<and> kv s1 = kv s"
    by blast
  show ?thesis
  proof (cases x)
    case (Some e)
    then have "r = Inl e" "s' = s1" using assms f by (simp_all add: commit_def)
    then show ?thesis using d1 t1 x Some by (auto simp: tidy_single not_wait)
  next
    case None
    then have ac: "a \<noteq> Failed" using t1 by simp
    obtain y s2 where g: "Incr (counterKeyPrefix @ p) s1 = (y, s2)" by (metis prod.exhaust)
    from Incr_effect[OF g] obtain b where
      d2: "zset s2 = zset s1" "clock s2 = clock s1"
      and t2: "trace s2 = trace s1 @ [(INCR (counterKeyPrefix @ p), b)]" "b = Failed \<longleftrightarrow> y = Inl StoreError"
      and y: "\<forall>n. y = Inr n \<longrightarrow> kv s2 = (kv s1)(counterKeyPrefix @ p \<mapsto> bump (clock s1) (kv s1 (counterKeyPrefix @ p)))"
             "\<forall>e. y = Inl e \<longrightarrow> e = StoreError \<and> kv s2 = kv s1"
      by blast
    have k1: "kv s1 = (kv s)(lastUsedIndexKey \<mapsto> (c, None))" using x None by simp
    have tr: "trace s2 = trace s @ [(SET lastUsedIndexKey c, a), (INCR (counterKeyPrefix @ p), b)]"
      using t1 t2 by simp
    have td: "tidy [(SET lastUsedIndexKey c, a), (INCR (counterKeyPrefix @ p), b)]"
      using ac by (simp add: tidy_def clean_def not_wait)
    show ?thesis
    proof (cases y)
      case (Inl e)
      then have "r = Inl e" "s' = s2" using assms f g None by (simp_all add: commit_def)
      then show ?thesis using d1 d2 tr td y Inl k1 by auto
    next
      case (Inr n)
      then have rs: "r = Inr p" "s' = s2" using assms f g None by (simp_all add: commit_def)
      have "b \<noteq> Failed" using t2 Inr by simp
      then have cl: "clean [(SET lastUsedIndexKey c, a), (INCR (counterKeyPrefix @ p), b)]"
        using ac by (simp add: clean_def)
      have "kv s2 = (kv s)(lastUsedIndexKey \<mapsto> (c, None),
                          counterKeyPrefix @ p \<mapsto> bump (clock s) (kv s (counterKeyPrefix @ p)))"
        using y Inr k1 d1 keys_distinct(3)[of p] by simp
      then show ?thesis using rs d1 d2 tr td cl by auto
    qed
  qed
qed

lemma critical_effect:
  assumes "critical s = (r, s')"
  shows "zset s' = zset s \<and> clock s' = clock s
     \<and> (\<exists>es. trace s' = trace s @ es \<and> tidy es \<and> (r \<noteq> Inl StoreError \<longrightarrow> clean es))
     \<and> (\<forall>p. r = Inr p \<longrightarrow>
           p \<noteq> '''' \<and> \<not> live s (phoneLockLimitedKeyPrefix @ p)
           \<and> (\<exists>c. (p, c) \<in> set (zset s)
                \<and> kv s' = (kv s)(lastUsedIndexKey \<mapsto> (c, None),
                         counterKeyPrefix @ p \<mapsto> bump (clock s) (kv s (counterKeyPrefix @ p)))))
     \<and> (\<forall>e. r = Inl e \<longrightarrow> (e = StoreError \<or> e = AllResourcesLeased)
           \<and> (\<forall>k. k \<noteq> lastUsedIndexKey \<longrightarrow> kv s' k = kv s k)
           \<and> (e \<noteq> StoreError \<longrightarrow> kv s' = kv s))"
proof -
  obtain x s1 where f: "candidates s = (x, s1)" by (metis prod.exhaust)
  from candidates_effect[OF f] obtain es1 where
    d1: "zset s1 = zset s" "kv s1 = kv s" "clock s1 = clock s"
    and t1: "trace s1 = trace s @ es1" "tidy es1" "x \<noteq> Inl StoreError \<longrightarrow> clean es1"
    and x: "\<forall>l zs. x = Inr (l, zs) \<longrightarrow> set zs \<subseteq> set (zset s)" "\<forall>e. x = Inl e \<longrightarrow> e = StoreError"
    by blast
  show ?thesis
  proof (cases x)
    case (Inl e)
    then have "r = Inl e" "s' = s1" using assms f by (simp_all add: critical_def)
    then show ?thesis using d1 t1 x Inl by auto
  next
    case (Inr lz)
    obtain l zs where lz: "lz = (l, zs)" by (cases lz)
    have c1: "clean es1" using t1 Inr by simp
    have sub: "set zs \<subseteq> set (zset s)" using x Inr lz by simp
    obtain y s2 where g: "pick l zs s1 = (y, s2)" by (metis prod.exhaust)
    from pick_effect[OF g] obtain es2 where
      d2: "zset s2 = zset s1" "kv s2 = kv s1" "clock s2 = clock s1"
      and t2: "trace s2 = trace s1 @ es2" "tidy es2" "y \<noteq> Inl StoreError \<longrightarrow> clean es2"
      and y: "\<forall>p c. y = Inr (p, c) \<longrightarrow>
           p \<noteq> '''' \<and> (p, c) \<in> set zs \<and> \<not> live s1 (phoneLockLimitedKeyPrefix @ p)"
         "\<forall>e. y = Inl e \<longrightarrow> e = StoreError \<or> e = AllResourcesLeased"
      by blast
    have tr2: "trace s2 = trace s @ (es1 @ es2)" using t1 t2 by simp
    have td2: "tidy (es1 @ es2)" using t1 t2 c1 by (simp add: tidy_append)
    have l: "live s1 k = live s k" for k using d1 by (simp add: live_def)
    show ?thesis
    proof (cases y)
      case (Inl e)
      then have "r = Inl e" "s' = s2" using assms f g Inr lz by (simp_all add: critical_def)
      moreover have "e \<noteq> StoreError \<longrightarrow> clean (es1 @ es2)"
        using c1 t2 Inl by (simp add: clean_append)
      ultimately show ?thesis using d1 d2 tr2 td2 y Inl by auto
    next
      case r2: (Inr sel)
      obtain p c where sel: "sel = (p, c)" by (cases sel)
      have c2: "clean (es1 @ es2)" using c1 t2 r2 by (simp add: clean_append)
      have p: "p \<noteq> ''''" "(p, c) \<in> set (zset s)" "\<not> live s (phoneLockLimitedKeyPrefix @ p)"
        using y r2 sel sub l by auto
      have h: "commit p c s2 = (r, s')" using assms f g Inr lz r2 sel by (simp add: critical_def)
      from commit_effect[OF h] obtain es3 where
        d3: "zset s' = zset s2" "clock s' = clock s2"
        and t3: "trace s' = trace s2 @ es3" "tidy es3" "r \<noteq> Inl StoreError \<longrightarrow> clean es3"
        and z: "\<forall>q. r = Inr q \<longrightarrow> q = p \<and>
           kv s' = (kv s2)(lastUsedIndexKey \<mapsto> (c, None),
                          counterKeyPrefix @ p \<mapsto> bump (clock s2) (kv s2 (counterKeyPrefix @ p)))"
           "\<forall>e. r = Inl e \<longrightarrow> e = StoreError \<and> (\<forall>k. k \<noteq> lastUsedIndexKey \<longrightarrow> kv s' k = kv s2 k)"
        by blast
      have tr3: "trace s' = trace s @ ((es1 @ es2) @ es3)" using tr2 t3 by simp
      have td3: "tidy ((es1 @ es2) @ es3)" using tidy_append[OF td2 c2 t3(2)] .
      have c3: "r \<noteq> Inl StoreError \<longrightarrow> clean ((es1 @ es2) @ es3)"
        using c2 t3 by (simp add: clean_append)
      have tx: "\<exists>es. trace s' = trace s @ es \<and> tidy es \<and> (r \<noteq> Inl StoreError \<longrightarrow> clean es)"
        using tr3 td3 c3 by blast
      show ?thesis
      proof (cases r)
        case (Inl e)
        then show ?thesis using z d1 d2 d3 tx by auto
      next
        case (Inr q)
        then have "q = p" "kv s' = (kv s)(lastUsedIndexKey \<mapsto> (c, None),
                          counterKeyPrefix @ p \<mapsto> bump (clock s) (kv s (counterKeyPrefix @ p)))"
          using z d1 d2 by simp_all
        then show ?thesis using Inr p d1 d2 d3 tx by auto
      qed
    qed
  qed
qed

subsection \<open>The retry loop and the whole call: what they do to the data\<close>

lemma Sleep_effect:
  "zset (Sleep d s) = zset s \<and> kv (Sleep d s) = kv s \<and> clock (Sleep d s) = clock s + d
   \<and> faults (Sleep d s) = faults s \<and> trace (Sleep d s) = trace s @ [(SLEEP d, Done)]"
  by (simp add: Sleep_def)

lemma acquire_data:
  "acquire i s = (r, s') \<Longrightarrow>
     zset s' = zset s \<and> clock s \<le> clock s'
     \<and> (\<forall>p. r = Inr p \<longrightarrow>
           p \<noteq> '''' \<and> \<not> live s' (phoneLockLimitedKeyPrefix @ p)
           \<and> (\<exists>c. (p, c) \<in> set (zset s)
                \<and> (\<forall>k. k \<noteq> defaultLockKey \<longrightarrow>
                      kv s' k = ((kv s)(lastUsedIndexKey \<mapsto> (c, None),
                         counterKeyPrefix @ p \<mapsto> bump (clock s') (kv s (counterKeyPrefix @ p)))) k)))
     \<and> (\<forall>e. r = Inl e \<longrightarrow>
           (\<forall>k. k \<noteq> defaultLockKey \<and> k \<noteq> lastUsedIndexKey \<longrightarrow> kv s' k = kv s k)
           \<and> (e \<noteq> StoreError \<longrightarrow> kv s' lastUsedIndexKey = kv s lastUsedIndexKey))"
proof (induction i s arbitrary: r s' rule: acquire.induct)
  case (1 i s)
  show ?case
  proof (cases "i < maxRetries")
    case False
    then have "r = Inl LockTimeout" "s' = s" using "1.prems" by (simp_all add: acquire.simps[of i s])
    then show ?thesis by simp
  next
    case True
    obtain x s1 where sx: "SetNX defaultLockKey lockDuration s = (x, s1)" by (metis prod.exhaust)
    from SetNX_effect[OF sx] have
      d1: "zset s1 = zset s" "clock s1 = clock s"
      and k1: "\<forall>k. k \<noteq> defaultLockKey \<longrightarrow> kv s1 k = kv s k"
      and n1: "x \<noteq> Inr True \<longrightarrow> kv s1 = kv s"
      by blast+
    show ?thesis
    proof (cases x)
      case (Inl e)
      then have "r = Inl e" "s' = s1" using "1.prems" True sx by (simp_all add: acquire.simps[of i s])
      then show ?thesis using d1 n1 Inl by simp
    next
      case (Inr locked)
      show ?thesis
      proof (cases locked)
        case True
        obtain y s2 where cr: "critical s1 = (y, s2)" by (metis prod.exhaust)
        have rs: "r = y" "s' = Del defaultLockKey s2"
          using "1.prems" \<open>i < maxRetries\<close> sx Inr True cr by (simp_all add: acquire.simps[of i s])
        from Del_effect[of defaultLockKey s2] have
          d3: "zset s' = zset s2" "clock s' = clock s2"
          and k3: "\<forall>k. k \<noteq> defaultLockKey \<longrightarrow> kv s' k = kv s2 k"
          using rs by simp_all
        from critical_effect[OF cr] have
          d2: "zset s2 = zset s1" "clock s2 = clock s1"
          and ok: "\<forall>p. y = Inr p \<longrightarrow>
             p \<noteq> '''' \<and> \<not> live s1 (phoneLockLimitedKeyPrefix @ p)
             \<and> (\<exists>c. (p, c) \<in> set (zset s1)
                \<and> kv s2 = (kv s1)(lastUsedIndexKey \<mapsto> (c, None),
                         counterKeyPrefix @ p \<mapsto> bump (clock s1) (kv s1 (counterKeyPrefix @ p))))"
          and ko: "\<forall>e. y = Inl e \<longrightarrow> (e = StoreError \<or> e = AllResourcesLeased)
             \<and> (\<forall>k. k \<noteq> lastUsedIndexKey \<longrightarrow> kv s2 k = kv s1 k)
             \<and> (e \<noteq> StoreError \<longrightarrow> kv s2 = kv s1)"
          by blast+
        have A: "zset s' = zset s \<and> clock s \<le> clock s'" using d1 d2 d3 by simp
        have B: "\<forall>e. r = Inl e \<longrightarrow>
           (\<forall>k. k \<noteq> defaultLockKey \<and> k \<noteq> lastUsedIndexKey \<longrightarrow> kv s' k = kv s k)
           \<and> (e \<noteq> StoreError \<longrightarrow> kv s' lastUsedIndexKey = kv s lastUsedIndexKey)"
          using ko rs k1 k3 keys_distinct(1) by (metis (no_types, lifting))
        have C: "p \<noteq> '''' \<and> \<not> live s' (phoneLockLimitedKeyPrefix @ p)
           \<and> (\<exists>c. (p, c) \<in> set (zset s)
                \<and> (\<forall>k. k \<noteq> defaultLockKey \<longrightarrow>
                      kv s' k = ((kv s)(lastUsedIndexKey \<mapsto> (c, None),
                         counterKeyPrefix @ p \<mapsto> bump (clock s') (kv s (counterKeyPrefix @ p)))) k))"
          if rp: "r = Inr p" for p
        proof -
          from ok rp rs obtain c where
            p: "p \<noteq> ''''" "\<not> live s1 (phoneLockLimitedKeyPrefix @ p)" "(p, c) \<in> set (zset s1)"
            and k2: "kv s2 = (kv s1)(lastUsedIndexKey \<mapsto> (c, None),
                         counterKeyPrefix @ p \<mapsto> bump (clock s1) (kv s1 (counterKeyPrefix @ p)))"
            by blast
          have cl: "clock s' = clock s1" using d2 d3 by simp
          have "kv s' (phoneLockLimitedKeyPrefix @ p) = kv s1 (phoneLockLimitedKeyPrefix @ p)"
            using k3 k2 keys_distinct(4)[of p p] keys_distinct(5,6)[of p] by auto
          then have nl: "\<not> live s' (phoneLockLimitedKeyPrefix @ p)"
            using p(2) cl by (simp add: live_def)
          have kc: "kv s1 (counterKeyPrefix @ p) = kv s (counterKeyPrefix @ p)"
            using k1 keys_distinct(2)[of p] by simp
          have "kv s' k = ((kv s)(lastUsedIndexKey \<mapsto> (c, None),
                 counterKeyPrefix @ p \<mapsto> bump (clock s') (kv s (counterKeyPrefix @ p)))) k"
            if "k \<noteq> defaultLockKey" for k
            using that k3 k2 k1 kc cl by simp
          then show ?thesis using p nl d1 by auto
        qed
        show ?thesis using A B C by blast
      next
        case False
        then have same: "kv s1 = kv s" using n1 Inr by simp
        show ?thesis
        proof (cases "i < maxRetries - 1")
          case True
          have rec: "acquire (i + 1) (Sleep timeDelay s1) = (r, s')"
            using "1.prems" \<open>i < maxRetries\<close> sx Inr False True by (simp add: acquire.simps[of i s])
          from "1.IH"(1)[OF \<open>i < maxRetries\<close> sx[symmetric] Inr _ True rec] False
          show ?thesis using d1 same by (simp add: Sleep_effect)
        next
          case last: False
          have rec: "acquire (i + 1) s1 = (r, s')"
            using "1.prems" \<open>i < maxRetries\<close> sx Inr False last by (simp add: acquire.simps[of i s])
          from "1.IH"(2)[OF \<open>i < maxRetries\<close> sx[symmetric] Inr _ last rec] False
          show ?thesis using d1 same by simp
        qed
      qed
    qed
  qed
qed

lemma GetNextPhoneNumber_data:
  assumes "GetNextPhoneNumber s = (r, s')"
  shows "zset s' = zset s \<and> clock s \<le> clock s'
     \<and> (\<forall>p. r = Inr p \<longrightarrow>
           p \<noteq> '''' \<and> \<not> live s' (phoneLockLimitedKeyPrefix @ p)
           \<and> (\<exists>c. (p, c) \<in> set (zset s)
                \<and> (\<forall>k. k \<noteq> defaultLockKey \<longrightarrow>
                      kv s' k = ((kv s)(lastUsedIndexKey \<mapsto> (c, None),
                         counterKeyPrefix @ p \<mapsto> bump (clock s') (kv s (counterKeyPrefix @ p)))) k)))
     \<and> (\<forall>e. r = Inl e \<longrightarrow>
           (\<forall>k. k \<noteq> defaultLockKey \<and> k \<noteq> lastUsedIndexKey \<longrightarrow> kv s' k = kv s k)
           \<and> (e \<noteq> StoreError \<longrightarrow> kv s' lastUsedIndexKey = kv s lastUsedIndexKey))"
proof -
  obtain x s1 where zc: "ZCard s = (x, s1)" by (metis prod.exhaust)
  from ZCard_effect[OF zc] have d1: "zset s1 = zset s" "kv s1 = kv s" "clock s1 = clock s"
    by blast+
  show ?thesis
  proof (cases x)
    case (Inl e)
    then have "r = Inl e" "s' = s1" using assms zc by (simp_all add: GetNextPhoneNumber_def)
    then show ?thesis using d1 by simp
  next
    case (Inr n)
    show ?thesis
    proof (cases "n = 0")
      case True
      then have "r = Inl NoResourcesAvailable" "s' = s1"
        using assms zc Inr by (simp_all add: GetNextPhoneNumber_def)
      then show ?thesis using d1 by simp
    next
      case False
      then have "acquire 0 s1 = (r, s')" using assms zc Inr by (simp add: GetNextPhoneNumber_def)
      from acquire_data[OF this] show ?thesis using d1 by simp
    qed
  qed
qed

lemma lookup_bump:
  "lookup now (Some (bump now e)) = Some (1 + (case lookup now e of None \<Rightarrow> 0 | Some v \<Rightarrow> v))"
  by (auto simp: bump_def lookup_def split: option.splits if_splits)

lemma lookup_earlier: "lookup t e \<noteq> None \<Longrightarrow> t' \<le> t \<Longrightarrow> lookup t' e \<noteq> None"
  by (auto simp: lookup_def split: option.splits if_splits)

lemma AddPhoneNumber_frame:
  assumes "AddPhoneNumber number s = (r, s')"
  shows "kv s' = kv s \<and> clock s' = clock s"
  using assms
  by (auto simp: AddPhoneNumber_def ZScore_def ZRevRangeWithScores_0_0_def ZAdd_def logged_fields
      Let_def split: if_splits option.splits list.splits)

lemma SetPhoneNumberLockLimited_frame:
  assumes "SetPhoneNumberLockLimited number ttl s = (r, s')"
  shows "zset s' = zset s \<and> clock s' = clock s
       \<and> (\<forall>k. k \<noteq> phoneLockLimitedKeyPrefix @ number \<longrightarrow> kv s' k = kv s k)
       \<and> (live s (phoneLockLimitedKeyPrefix @ number) \<longrightarrow> kv s' = kv s)"
  using assms
  by (auto simp: SetPhoneNumberLockLimited_def ZScore_def SetNX_def logged_fields live_logged
      split: if_splits option.splits)

lemma step_clock: "step x s = (r, s') \<Longrightarrow> clock s \<le> clock s'"
proof (cases x)
  case (Add n)
  assume "step x s = (r, s')"
  then show ?thesis using Add AddPhoneNumber_frame[of n s]
    by (auto split: prod.splits option.splits)
next
  case (Lease n ttl)
  assume "step x s = (r, s')"
  then show ?thesis using Lease SetPhoneNumberLockLimited_frame[of n ttl s]
    by (auto split: prod.splits option.splits)
next
  case Select
  assume "step x s = (r, s')"
  then show ?thesis using Select GetNextPhoneNumber_data[of s]
    by (auto split: prod.splits sum.splits)
next
  case (Wait d)
  assume "step x s = (r, s')"
  then show ?thesis using Wait by auto
qed

lemma exec_clock: "exec ops s = (rs, s') \<Longrightarrow> clock s \<le> clock s'"
proof (induction ops arbitrary: s rs s')
  case Nil
  then show ?case by simp
next
  case (Cons x ops)
  obtain r s1 where st: "step x s = (r, s1)" by (metis prod.exhaust)
  obtain rs1 s2 where ex: "exec ops s1 = (rs1, s2)" by (metis prod.exhaust)
  have "s' = s2" using Cons.prems st ex by simp
  then show ?case using step_clock[OF st] Cons.IH[OF ex] by simp
qed

lemma step_lease_key:
  assumes "step x s = (r, s1)" and "lookup (clock s1) (kv s (phoneLockLimitedKeyPrefix @ R)) \<noteq> None"
  shows "kv s1 (phoneLockLimitedKeyPrefix @ R) = kv s (phoneLockLimitedKeyPrefix @ R)
       \<and> r \<noteq> Selected R"
proof (cases x)
  case (Add n)
  obtain e s' where a: "AddPhoneNumber n s = (e, s')" by (metis prod.exhaust)
  then have "s1 = s'" "r \<noteq> Selected R" using assms(1) Add by (auto split: option.splits)
  then show ?thesis using AddPhoneNumber_frame[OF a] by simp
next
  case (Lease n ttl)
  obtain e s' where a: "SetPhoneNumberLockLimited n ttl s = (e, s')" by (metis prod.exhaust)
  then have s1: "s1 = s'" "r \<noteq> Selected R" using assms(1) Lease by (auto split: option.splits)
  from SetPhoneNumberLockLimited_frame[OF a] have
    c: "clock s' = clock s"
    and k: "\<forall>k. k \<noteq> phoneLockLimitedKeyPrefix @ n \<longrightarrow> kv s' k = kv s k"
    and l: "live s (phoneLockLimitedKeyPrefix @ n) \<longrightarrow> kv s' = kv s"
    by blast+
  have "kv s' (phoneLockLimitedKeyPrefix @ R) = kv s (phoneLockLimitedKeyPrefix @ R)"
  proof (cases "n = R")
    case True
    then have "live s (phoneLockLimitedKeyPrefix @ n)"
      using assms(2) s1 c by (simp add: live_def)
    then show ?thesis using l by simp
  next
    case False
    then show ?thesis using k by simp
  qed
  then show ?thesis using s1 by simp
next
  case Select
  obtain e s' where a: "GetNextPhoneNumber s = (e, s')" by (metis prod.exhaust)
  then have s1: "s1 = s'" using assms(1) Select by (auto split: sum.splits)
  from GetNextPhoneNumber_data[OF a] have
    ok: "\<forall>p. e = Inr p \<longrightarrow>
           p \<noteq> '''' \<and> \<not> live s' (phoneLockLimitedKeyPrefix @ p)
           \<and> (\<exists>c. (p, c) \<in> set (zset s)
                \<and> (\<forall>k. k \<noteq> defaultLockKey \<longrightarrow>
                      kv s' k = ((kv s)(lastUsedIndexKey \<mapsto> (c, None),
                         counterKeyPrefix @ p \<mapsto> bump (clock s') (kv s (counterKeyPrefix @ p)))) k))"
    and ko: "\<forall>x. e = Inl x \<longrightarrow>
           (\<forall>k. k \<noteq> defaultLockKey \<and> k \<noteq> lastUsedIndexKey \<longrightarrow> kv s' k = kv s k)"
    by blast+
  have same: "kv s' (phoneLockLimitedKeyPrefix @ R) = kv s (phoneLockLimitedKeyPrefix @ R)"
  proof (cases e)
    case (Inl x)
    then show ?thesis using ko keys_distinct(5,6)[of R] by simp
  next
    case (Inr p)
    then show ?thesis using ok keys_distinct(5,6)[of R] keys_distinct(4)[of p R] by auto
  qed
  have "r \<noteq> Selected R"
  proof
    assume "r = Selected R"
    then have "e = Inr R" using assms(1) Select a by (auto split: sum.splits)
    then have "\<not> live s' (phoneLockLimitedKeyPrefix @ R)" using ok by simp
    then show False using assms(2) same s1 by (simp add: live_def)
  qed
  then show ?thesis using same s1 by simp
next
  case (Wait d)
  then show ?thesis using assms(1) by auto
qed

lemma step_counter_key:
  assumes "step x s = (r, s1)"
  shows "kv s1 (counterKeyPrefix @ R)
       = (if r = Selected R then Some (bump (clock s1) (kv s (counterKeyPrefix @ R)))
          else kv s (counterKeyPrefix @ R))"
proof (cases x)
  case (Add n)
  obtain e s' where a: "AddPhoneNumber n s = (e, s')" by (metis prod.exhaust)
  then have "s1 = s'" "r \<noteq> Selected R" using assms Add by (auto split: option.splits)
  then show ?thesis using AddPhoneNumber_frame[OF a] by simp
next
  case (Lease n ttl)
  obtain e s' where a: "SetPhoneNumberLockLimited n ttl s = (e, s')" by (metis prod.exhaust)
  then have "s1 = s'" "r \<noteq> Selected R" using assms Lease by (auto split: option.splits)
  then show ?thesis using SetPhoneNumberLockLimited_frame[OF a] keys_distinct(4)[of R n] by simp
next
  case Select
  obtain e s' where a: "GetNextPhoneNumber s = (e, s')" by (metis prod.exhaust)
  then have s1: "s1 = s'" using assms Select by (auto split: sum.splits)
  from GetNextPhoneNumber_data[OF a] have
    ok: "\<forall>p. e = Inr p \<longrightarrow>
           (\<exists>c. (\<forall>k. k \<noteq> defaultLockKey \<longrightarrow>
                      kv s' k = ((kv s)(lastUsedIndexKey \<mapsto> (c, None),
                         counterKeyPrefix @ p \<mapsto> bump (clock s') (kv s (counterKeyPrefix @ p)))) k))"
    and ko: "\<forall>x. e = Inl x \<longrightarrow>
           (\<forall>k. k \<noteq> defaultLockKey \<and> k \<noteq> lastUsedIndexKey \<longrightarrow> kv s' k = kv s k)"
    by blast+
  show ?thesis
  proof (cases e)
    case (Inl x)
    then have "r \<noteq> Selected R" using assms Select a by auto
    then show ?thesis using ko Inl s1 keys_distinct(2,3)[of R] by simp
  next
    case (Inr p)
    then have r: "r = Selected p" using assms Select a by auto
    from ok Inr obtain c where
      "\<forall>k. k \<noteq> defaultLockKey \<longrightarrow>
                      kv s' k = ((kv s)(lastUsedIndexKey \<mapsto> (c, None),
                         counterKeyPrefix @ p \<mapsto> bump (clock s') (kv s (counterKeyPrefix @ p)))) k"
      by blast
    then have "kv s' (counterKeyPrefix @ R)
        = ((kv s)(lastUsedIndexKey \<mapsto> (c, None),
             counterKeyPrefix @ p \<mapsto> bump (clock s') (kv s (counterKeyPrefix @ p)))) (counterKeyPrefix @ R)"
      using keys_distinct(2)[of R] by blast
    then show ?thesis using r s1 keys_distinct(3)[of R] by auto
  qed
next
  case (Wait d)
  then show ?thesis using assms by auto
qed

lemma bump_persistent:
  "bump t None = (1, None)" "bump t (Some (v, None)) = (v + 1, None)"
  by (simp_all add: bump_def lookup_def)

lemma exec_counter_key:
  assumes "exec ops s = (rs, s')"
    and "kv s (counterKeyPrefix @ R) = None \<or> kv s (counterKeyPrefix @ R) = Some (v, None)"
  shows "kv s' (counterKeyPrefix @ R)
       = (if count_list rs (Selected R) = 0 then kv s (counterKeyPrefix @ R)
          else Some ((case kv s (counterKeyPrefix @ R) of None \<Rightarrow> 0 | Some e \<Rightarrow> fst e)
                       + int (count_list rs (Selected R)), None))"
  using assms
proof (induction ops arbitrary: s rs v)
  case Nil
  then show ?case by simp
next
  case (Cons x ops)
  obtain r s1 where st: "step x s = (r, s1)" by (metis prod.exhaust)
  obtain rs1 s2 where ex: "exec ops s1 = (rs1, s2)" by (metis prod.exhaust)
  have fin: "s' = s2" "rs = r # rs1" using Cons.prems(1) st ex by simp_all
  have ex': "exec ops s1 = (rs1, s')" using ex fin by simp
  note k1 = step_counter_key[OF st, of R]
  show ?case
  proof (cases "r = Selected R")
    case False
    then have same: "kv s1 (counterKeyPrefix @ R) = kv s (counterKeyPrefix @ R)" using k1 by simp
    from Cons.IH[OF ex', of v] Cons.prems(2) same fin False show ?thesis by simp
  next
    case True
    let ?v0 = "case kv s (counterKeyPrefix @ R) of None \<Rightarrow> 0 | Some e \<Rightarrow> fst e"
    have new: "kv s1 (counterKeyPrefix @ R) = Some (?v0 + 1, None)"
      using k1 True Cons.prems(2) by (auto simp: bump_persistent)
    from Cons.IH[OF ex', of "?v0 + 1"] new fin True show ?thesis by auto
  qed
qed

subsection \<open>A store that answers\<close>

lemma first_pass_reliable:
  "faults s = [] \<Longrightarrow>
     fst (first_pass l zs s) = Inr (found (find (\<lambda>z. l < snd z \<and> free s z) zs))
     \<and> faults (snd (first_pass l zs s)) = []"
proof (induction zs arbitrary: s)
  case Nil
  then show ?case by (simp add: found_def)
next
  case (Cons z zs)
  obtain phone score where z: "z = (phone, score)" by (cases z)
  obtain x s1 where ex: "Exists (phoneLockLimitedKeyPrefix @ phone) s = (x, s1)"
    by (metis prod.exhaust)
  from Exists_effect[OF ex] Cons.prems have
    d: "kv s1 = kv s" "clock s1 = clock s" and f1: "faults s1 = []"
    and x: "x = Inr (if live s (phoneLockLimitedKeyPrefix @ phone) then 1 else 0)"
    by (simp_all add: failing_Nil)
  have fr: "free s1 = free s" using d by (auto simp: free_def leased_def live_def)
  show ?case
  proof (cases "score \<le> l")
    case True
    then show ?thesis using Cons.IH[OF Cons.prems] z by simp
  next
    case False
    show ?thesis
    proof (cases "live s (phoneLockLimitedKeyPrefix @ phone)")
      case True
      then show ?thesis using Cons.IH[OF f1] z False ex x fr
        by (simp add: free_def leased_def)
    next
      case nl: False
      then show ?thesis using z False ex x f1
        by (simp add: free_def leased_def found_def)
    qed
  qed
qed

lemma second_pass_reliable:
  assumes "faults s = []"
  shows "fst (second_pass zs s) = Inr (found (find (free s) zs))
     \<and> faults (snd (second_pass zs s)) = []"
proof -
  obtain l where l: "\<forall>z \<in> set zs. l < snd z" using below_all by blast
  then have "find (\<lambda>z. l < snd z \<and> free s z) zs = find (free s) zs"
    by (induction zs) auto
  then show ?thesis using first_pass_reliable[OF assms, of l zs] l
    by (simp add: first_pass_below)
qed

lemma candidates_reliable:
  assumes "faults s = []"
  shows "fst (candidates s) = Inr (last_score s, walked s) \<and> faults (snd (candidates s)) = []"
proof -
  have nf: "\<not> failing (logged c x s)" "\<not> failing (logged c' x' (logged c x s))" for c x c' x'
    using assms by (simp_all add: failing_def logged_fields)
  have in_all: "filter (in_range None) zs = zs" for zs
    by (simp add: in_range_def)
  show ?thesis
    using assms nf
    by (simp add: candidates_def Get_def ZRangeByScoreWithScores_def failing_Nil logged_fields
        last_score_def cursor_def walked_def in_all Let_def split: option.splits)
qed

lemma pick_reliable:
  assumes "faults s = []"
  shows "fst (pick l zs s)
       = (let fp = found (find (\<lambda>z. l < snd z \<and> free s z) zs);
              sp = (if fst fp = '''' then found (find (free s) zs) else fp)
          in if fst sp = '''' then Inl AllResourcesLeased else Inr sp)
     \<and> faults (snd (pick l zs s)) = []"
proof -
  obtain x s1 where f: "first_pass l zs s = (x, s1)" by (metis prod.exhaust)
  from first_pass_reliable[OF assms, of l zs] f
  have x: "x = Inr (found (find (\<lambda>z. l < snd z \<and> free s z) zs))" and f1: "faults s1 = []"
    by simp_all
  from first_pass_effect[OF f] have d: "kv s1 = kv s" "clock s1 = clock s" by blast+
  have fr: "free s1 = free s" using d by (auto simp: free_def leased_def live_def)
  obtain y s2 where g: "second_pass zs s1 = (y, s2)" by (metis prod.exhaust)
  from second_pass_reliable[OF f1, of zs] g fr
  have y: "y = Inr (found (find (free s) zs))" and f2: "faults s2 = []" by simp_all
  show ?thesis
    using f x f1 g y f2
    by (auto simp: pick_def Let_def split: prod.splits)
qed

lemma commit_reliable:
  assumes "faults s = []"
  shows "fst (commit p c s) = Inr p \<and> faults (snd (commit p c s)) = []"
proof -
  have nf: "\<not> failing (logged a x s)" for a x
    using assms by (simp add: failing_def logged_fields)
  have nf': "\<not> failing (logged a x (s\<lparr>kv := m\<rparr>))" for a x m
    using assms by (simp add: failing_def logged_def)
  show ?thesis
    using assms nf nf'
    by (simp add: commit_def Set_def Incr_def failing_Nil logged_fields split: option.splits)
qed

lemma critical_reliable:
  assumes "faults s = []"
  shows "fst (critical s) = (if fst (chosen s) = '''' then Inl AllResourcesLeased
                             else Inr (fst (chosen s)))
       \<and> faults (snd (critical s)) = []
       \<and> (fst (chosen s) \<noteq> '''' \<longrightarrow>
            kv (snd (critical s)) lastUsedIndexKey = Some (snd (chosen s), None))"
proof -
  obtain x s1 where f: "candidates s = (x, s1)" by (metis prod.exhaust)
  from candidates_reliable[OF assms] f
  have x: "x = Inr (last_score s, walked s)" and f1: "faults s1 = []" by simp_all
  from candidates_effect[OF f] have d1: "kv s1 = kv s" "clock s1 = clock s" by blast+
  have fr: "free s1 = free s" using d1 by (auto simp: free_def leased_def live_def)
  obtain y s2 where g: "pick (last_score s) (walked s) s1 = (y, s2)" by (metis prod.exhaust)
  from pick_reliable[OF f1, of "last_score s" "walked s"] g fr
  have y: "y = (if fst (chosen s) = '''' then Inl AllResourcesLeased else Inr (chosen s))"
    and f2: "faults s2 = []"
    by (simp_all add: chosen_def Let_def)
  show ?thesis
  proof (cases "fst (chosen s) = ''''")
    case True
    then show ?thesis using f x g y f2 by (simp add: critical_def)
  next
    case False
    obtain p c where pc: "chosen s = (p, c)" by (cases "chosen s")
    obtain z s3 where h: "commit p c s2 = (z, s3)" by (metis prod.exhaust)
    from commit_reliable[OF f2, of p c] h have z: "z = Inr p" "faults s3 = []" by simp_all
    from commit_effect[OF h] z keys_distinct(3)[of p]
    have "kv s3 lastUsedIndexKey = Some (c, None)" by simp
    then show ?thesis using False f x g y pc h z by (simp add: critical_def)
  qed
qed

lemma chosen_cong:
  assumes "zset s1 = zset s" and "clock s1 = clock s"
    and "\<forall>k. k \<noteq> defaultLockKey \<longrightarrow> kv s1 k = kv s k"
  shows "chosen s1 = chosen s"
proof -
  have c: "cursor s1 = cursor s"
    using assms(2,3) keys_distinct(1) by (simp add: cursor_def)
  have "leased s1 p = leased s p" for p
    using assms(2,3) keys_distinct(5)[of p] by (simp add: leased_def live_def)
  then have f: "free s1 = free s" by (auto simp: free_def)
  have l: "last_score s1 = last_score s" using c by (simp add: last_score_def)
  have w: "walked s1 = walked s" using l assms(1) by (simp add: walked_def)
  show ?thesis by (simp add: chosen_def f l w)
qed



lemma GetNextPhoneNumber_reliable:
  assumes "faults s = []" and "\<not> live s defaultLockKey" and "zset s \<noteq> []"
  shows "fst (GetNextPhoneNumber s)
           = (if fst (chosen s) = '''' then Inl AllResourcesLeased else Inr (fst (chosen s)))
       \<and> faults (snd (GetNextPhoneNumber s)) = []
       \<and> clock (snd (GetNextPhoneNumber s)) = clock s
       \<and> kv (snd (GetNextPhoneNumber s)) defaultLockKey = None
       \<and> (fst (chosen s) \<noteq> '''' \<longrightarrow>
            kv (snd (GetNextPhoneNumber s)) lastUsedIndexKey = Some (snd (chosen s), None))"
proof -
  obtain x s1 where zc: "ZCard s = (x, s1)" by (metis prod.exhaust)
  from ZCard_effect[OF zc] assms(1,3) have
    d1: "zset s1 = zset s" "kv s1 = kv s" "clock s1 = clock s" and f1: "faults s1 = []"
    and x: "x = Inr (int (length (zset s)))"
    by (simp_all add: failing_Nil)
  have ac: "GetNextPhoneNumber s = acquire 0 s1"
    using zc x assms(3) by (simp add: GetNextPhoneNumber_def)
  obtain y s2 where sx: "SetNX defaultLockKey lockDuration s1 = (y, s2)" by (metis prod.exhaust)
  have nl: "\<not> live s1 defaultLockKey" using assms(2) d1 by (simp add: live_def)
  from SetNX_effect[OF sx] f1 nl have
    d2: "zset s2 = zset s1" "clock s2 = clock s1" and f2: "faults s2 = []"
    and k2: "\<forall>k. k \<noteq> defaultLockKey \<longrightarrow> kv s2 k = kv s1 k"
    and y: "y = Inr True"
    by (simp_all add: failing_Nil)
  obtain r s3 where cr: "critical s2 = (r, s3)" by (metis prod.exhaust)
  have run: "acquire 0 s1 = (r, Del defaultLockKey s3)"
    using sx y cr by (simp add: acquire.simps[of 0 s1] maxRetries_def)
  have ch: "chosen s2 = chosen s" using chosen_cong[of s2 s] d1 d2 k2 by simp
  from critical_reliable[OF f2] cr ch have
    r: "r = (if fst (chosen s) = '''' then Inl AllResourcesLeased else Inr (fst (chosen s)))"
    and f3: "faults s3 = []"
    and c3: "fst (chosen s) \<noteq> '''' \<longrightarrow> kv s3 lastUsedIndexKey = Some (snd (chosen s), None)"
    by simp_all
  from critical_effect[OF cr] have d3: "clock s3 = clock s2" by blast
  from Del_effect[of defaultLockKey s3] f3 keys_distinct(1) have
    "faults (Del defaultLockKey s3) = []" "clock (Del defaultLockKey s3) = clock s3"
    "kv (Del defaultLockKey s3) defaultLockKey = None"
    "kv (Del defaultLockKey s3) lastUsedIndexKey = kv s3 lastUsedIndexKey"
    by (simp_all add: failing_Nil)
  then show ?thesis using ac run r c3 d1 d2 d3 by simp
qed

lemma walked_subset: "set (walked s) \<subseteq> set (zset s)"
  by (auto simp: walked_def)

lemma find_None_subset: "\<forall>z \<in> set ys. \<not> P z \<Longrightarrow> set xs \<subseteq> set ys \<Longrightarrow> find P xs = None"
  by (auto simp: find_None_iff)

lemma chosen_all_leased:
  assumes "\<forall>z \<in> set (zset s). leased s (fst z)"
  shows "chosen s = ('''', 0)"
proof -
  have 1: "find (free s) (walked s) = None"
    using assms walked_subset[of s] by (intro find_None_subset[of "zset s"]) (auto simp: free_def)
  have 2: "find (\<lambda>z. last_score s < snd z \<and> free s z) (walked s) = None"
    using assms walked_subset[of s] by (intro find_None_subset[of "zset s"]) (auto simp: free_def)
  show ?thesis by (simp add: chosen_def 1 2 found_def)
qed

lemma two_numbers_fields:
  "zset two_numbers = [(''A'', 0), (''B'', 1)]" "faults two_numbers = []" "clock two_numbers = 0"
  "kv two_numbers k = None"
  by (simp_all add: two_numbers_def)

lemma second_leased_fields:
  "zset second_leased = [(''A'', 0), (''B'', 1)]" "faults second_leased = []" "clock second_leased = 0"
  "kv second_leased defaultLockKey = None" "kv second_leased lastUsedIndexKey = None"
  "kv second_leased (phoneLockLimitedKeyPrefix @ ''A'') = None"
  "kv second_leased (phoneLockLimitedKeyPrefix @ ''B'') = Some (1, Some 3600000)"
  using keys_distinct(5,6)[of "''B''"]
  by (simp_all add: second_leased_def two_numbers_def)

lemma both_leased_fields:
  "zset both_leased = [(''A'', 0), (''B'', 1)]" "faults both_leased = []" "clock both_leased = 0"
  "kv both_leased defaultLockKey = None" "kv both_leased lastUsedIndexKey = None"
  "kv both_leased (phoneLockLimitedKeyPrefix @ ''A'') = Some (1, Some 3600000)"
  "kv both_leased (phoneLockLimitedKeyPrefix @ ''B'') = Some (1, Some 3600000)"
  using keys_distinct(5,6)[of "''A''"] keys_distinct(5,6)[of "''B''"]
  by (simp_all add: both_leased_def two_numbers_def)

lemma chosen_two_numbers: "chosen two_numbers = (''A'', 0)"
  by (simp add: chosen_def walked_def last_score_def cursor_def free_def leased_def live_def
      lookup_def found_def in_range_def two_numbers_fields)

lemma chosen_second_leased: "chosen second_leased = (''A'', 0)"
  by (simp add: chosen_def walked_def last_score_def cursor_def free_def leased_def live_def
      lookup_def found_def in_range_def second_leased_fields)

lemma exec_Select:
  "exec [Select] s = ([case fst (GetNextPhoneNumber s) of Inl e \<Rightarrow> Refused e | Inr p \<Rightarrow> Selected p],
                      snd (GetNextPhoneNumber s))"
  by (simp split: prod.splits sum.splits)

subsection \<open>The retry loop: what it leaves in the trace\<close>








lemma since_eq: "trace s' = trace s @ es \<Longrightarrow> since s s' = es"
  by (simp add: since_def)



subsection \<open>The range queries of the critical section\<close>

lemma queries_simps:
  "queries [] = []"
  "queries ((ZRANGEBYSCORE lo, x) # es) = (ZRANGEBYSCORE lo, x) # queries es"
  "queries ((GET k, x) # es) = queries es"
  "queries (es @ fs) = queries es @ queries fs"
  by (simp_all add: queries_def is_query_def)

lemma first_pass_no_query:
  "first_pass l zs s = (r, s') \<Longrightarrow> \<exists>es. trace s' = trace s @ es \<and> queries es = []"
proof (induction zs arbitrary: s)
  case Nil
  then show ?case by (simp add: queries_simps)
next
  case (Cons z zs)
  obtain phone score where z: "z = (phone, score)" by (cases z)
  show ?case
  proof (cases "score \<le> l")
    case True
    then show ?thesis using Cons z by simp
  next
    case False
    obtain x s1 where ex: "Exists (phoneLockLimitedKeyPrefix @ phone) s = (x, s1)"
      by (metis prod.exhaust)
    from Exists_effect[OF ex] obtain y where
      t1: "trace s1 = trace s @ [(EXISTS (phoneLockLimitedKeyPrefix @ phone), y)]" by blast
    have q1: "queries [(EXISTS (phoneLockLimitedKeyPrefix @ phone), y)] = []"
      by (simp add: queries_def is_query_def)
    show ?thesis
    proof (cases "\<exists>n. x = Inr n \<and> n \<noteq> 0")
      case True
      then have "first_pass l zs s1 = (r, s')" using Cons.prems z False ex by auto
      from Cons.IH[OF this] obtain es where "trace s' = trace s1 @ es" "queries es = []" by blast
      then have "trace s' = trace s @ ((EXISTS (phoneLockLimitedKeyPrefix @ phone), y) # es)"
        "queries ((EXISTS (phoneLockLimitedKeyPrefix @ phone), y) # es) = []"
        using t1 by (simp_all add: queries_def is_query_def)
      then show ?thesis by blast
    next
      case stop: False
      then have "s' = s1" using Cons.prems z False ex by (cases x) (auto split: if_splits)
      then show ?thesis using t1 q1 by blast
    qed
  qed
qed

lemma second_pass_no_query:
  assumes "second_pass zs s = (r, s')"
  shows "\<exists>es. trace s' = trace s @ es \<and> queries es = []"
proof -
  obtain l where "\<forall>z \<in> set zs. l < snd z" using below_all by blast
  then have "first_pass l zs s = (r, s')" using assms by (simp add: first_pass_below)
  then show ?thesis by (rule first_pass_no_query)
qed

lemma pick_no_query:
  assumes "pick l zs s = (r, s')"
  shows "\<exists>es. trace s' = trace s @ es \<and> queries es = []"
proof -
  obtain x s1 where f: "first_pass l zs s = (x, s1)" by (metis prod.exhaust)
  from first_pass_no_query[OF f] obtain es1 where
    t1: "trace s1 = trace s @ es1" "queries es1 = []" by blast
  show ?thesis
  proof (cases "\<exists>c. x = Inr ('''', c)")
    case False
    then have "s' = s1" using assms f
      by (cases x) (auto simp: pick_def split: prod.splits if_splits)
    then show ?thesis using t1 by blast
  next
    case True
    obtain y s2 where g: "second_pass zs s1 = (y, s2)" by (metis prod.exhaust)
    from second_pass_no_query[OF g] obtain es2 where
      t2: "trace s2 = trace s1 @ es2" "queries es2 = []" by blast
    have "s' = s2" using assms f g True
      by (cases y) (auto simp: pick_def split: prod.splits if_splits)
    then have "trace s' = trace s @ (es1 @ es2)" "queries (es1 @ es2) = []"
      using t1 t2 by (simp_all add: queries_simps)
    then show ?thesis by blast
  qed
qed

lemma commit_no_query:
  assumes "commit p c s = (r, s')"
  shows "\<exists>es. trace s' = trace s @ es \<and> queries es = []"
proof -
  obtain x s1 where f: "Set lastUsedIndexKey c s = (x, s1)" by (metis prod.exhaust)
  from Set_effect[OF f] obtain a where
    t1: "trace s1 = trace s @ [(SET lastUsedIndexKey c, a)]" by blast
  show ?thesis
  proof (cases x)
    case (Some e)
    then have "s' = s1" using assms f by (simp add: commit_def)
    moreover have "queries [(SET lastUsedIndexKey c, a)] = []"
      by (simp add: queries_def is_query_def)
    ultimately show ?thesis using t1 by blast
  next
    case None
    obtain y s2 where g: "Incr (counterKeyPrefix @ p) s1 = (y, s2)" by (metis prod.exhaust)
    from Incr_effect[OF g] obtain b where
      t2: "trace s2 = trace s1 @ [(INCR (counterKeyPrefix @ p), b)]" by blast
    have "s' = s2" using assms f g None by (cases y) (simp_all add: commit_def)
    then have "trace s' = trace s @ [(SET lastUsedIndexKey c, a), (INCR (counterKeyPrefix @ p), b)]"
      using t1 t2 by simp
    moreover have "queries [(SET lastUsedIndexKey c, a), (INCR (counterKeyPrefix @ p), b)] = []"
      by (simp add: queries_def is_query_def)
    ultimately show ?thesis by blast
  qed
qed

lemma from_cursor_range: "filter (in_range (Some (last_score s))) (zset s) = from_cursor s"
  unfolding from_cursor_def by (rule filter_cong) (simp_all add: in_range_def)

lemma ZRangeByScoreWithScores_cases:
  assumes "ZRangeByScoreWithScores lo s = (r, s')"
  shows "(failing s \<longrightarrow> r = Inl StoreError \<and> trace s' = trace s @ [(ZRANGEBYSCORE lo, Failed)])
       \<and> (\<not> failing s \<longrightarrow> r = Inr (filter (in_range lo) (zset s))
             \<and> trace s' = trace s @ [(ZRANGEBYSCORE lo, Entries (filter (in_range lo) (zset s)))])"
  using assms by (auto simp: ZRangeByScoreWithScores_def logged_fields Let_def split: if_splits)

lemma candidates_queries:
  assumes "candidates s = (x, s1)" and "\<not> failing s" and "\<not> failing (s\<lparr>faults := tl (faults s)\<rparr>)"
  shows "\<exists>es. trace s1 = trace s @ es
       \<and> map fst (queries es)
           = (if length (from_cursor s) \<le> 1
              then [ZRANGEBYSCORE (Some (last_score s)), ZRANGEBYSCORE None]
              else [ZRANGEBYSCORE (Some (last_score s))])
       \<and> snd (hd (queries es)) = Entries (from_cursor s)
       \<and> (\<forall>e. x = Inl e \<longrightarrow> length (from_cursor s) \<le> 1)"
proof -
  obtain v err s0 where g: "Get lastUsedIndexKey s = ((v, err), s0)" by (metis prod.exhaust)
  from Get_effect[OF g] assms(2) obtain a where
    d0: "zset s0 = zset s" "faults s0 = tl (faults s)"
    and t0: "trace s0 = trace s @ [(GET lastUsedIndexKey, a)]"
    and e: "err \<noteq> ErrIO"
    and v: "err = ErrNil \<longrightarrow> lookup (clock s) (kv s lastUsedIndexKey) = None"
           "err = ErrNone \<longrightarrow> lookup (clock s) (kv s lastUsedIndexKey) = Some v"
    by blast
  have ee: "err = ErrNil \<or> err = ErrNone" using e by (cases err) simp_all
  then have l: "(if err = ErrNil then - 1 else v) = last_score s"
    using v by (auto simp: last_score_def cursor_def)
  have nf: "\<not> failing s0" using assms(3) d0 by (simp add: failing_def)
  obtain y s2 where z: "ZRangeByScoreWithScores (Some (last_score s)) s0 = (y, s2)"
    by (metis prod.exhaust)
  from ZRangeByScoreWithScores_cases[OF z] nf d0 have
    t2: "trace s2 = trace s0 @ [(ZRANGEBYSCORE (Some (last_score s)), Entries (from_cursor s))]"
    and y: "y = Inr (from_cursor s)"
    by (simp_all add: from_cursor_range)
  let ?first = "[(GET lastUsedIndexKey, a), (ZRANGEBYSCORE (Some (last_score s)), Entries (from_cursor s))]"
  have tr2: "trace s2 = trace s @ ?first" using t0 t2 by simp
  show ?thesis
  proof (cases "length (from_cursor s) \<le> 1")
    case False
    then have "x = Inr (last_score s, from_cursor s)" "s1 = s2"
      using assms(1) g ee l z y by (auto simp: candidates_def Let_def)
    then show ?thesis using tr2 False
      by (intro exI[of _ ?first]) (simp add: queries_simps)
  next
    case True
    obtain y3 s3 where z3: "ZRangeByScoreWithScores None s2 = (y3, s3)" by (metis prod.exhaust)
    from ZRangeByScoreWithScores_effect[OF z3] obtain q where
      t3: "trace s3 = trace s2 @ [(ZRANGEBYSCORE None, q)]" by blast
    have "s1 = s3" using assms(1) g ee l z y True z3
      by (cases y3) (auto simp: candidates_def Let_def)
    then have "trace s1 = trace s @ (?first @ [(ZRANGEBYSCORE None, q)])" using tr2 t3 by simp
    then show ?thesis using True
      by (intro exI[of _ "?first @ [(ZRANGEBYSCORE None, q)]"]) (simp add: queries_simps)
  qed
qed

lemma critical_queries:
  assumes "critical s = (r, s')" and "\<not> failing s" and "\<not> failing (s\<lparr>faults := tl (faults s)\<rparr>)"
  shows "trace s' = trace s @ since s s'
       \<and> map fst (queries (since s s'))
           = (if length (from_cursor s) \<le> 1
              then [ZRANGEBYSCORE (Some (last_score s)), ZRANGEBYSCORE None]
              else [ZRANGEBYSCORE (Some (last_score s))])
       \<and> snd (hd (queries (since s s'))) = Entries (from_cursor s)"
proof -
  obtain x s1 where f: "candidates s = (x, s1)" by (metis prod.exhaust)
  from candidates_queries[OF f assms(2,3)] obtain es1 where
    t1: "trace s1 = trace s @ es1"
    and q1: "map fst (queries es1)
           = (if length (from_cursor s) \<le> 1
              then [ZRANGEBYSCORE (Some (last_score s)), ZRANGEBYSCORE None]
              else [ZRANGEBYSCORE (Some (last_score s))])"
      "snd (hd (queries es1)) = Entries (from_cursor s)"
    by blast
  have fin: ?thesis if "trace s' = trace s1 @ es" "queries es = []" for es
  proof -
    have "since s s' = es1 @ es" using that(1) t1 by (simp add: since_eq)
    moreover have "queries (es1 @ es) = queries es1" using that(2) by (simp add: queries_simps)
    ultimately show ?thesis using q1 t1 that(1) by simp
  qed
  show ?thesis
  proof (cases x)
    case (Inl e)
    then have "s' = s1" using assms(1) f by (simp add: critical_def)
    then show ?thesis using fin[of "[]"] by (simp add: queries_simps)
  next
    case (Inr lz)
    obtain l zs where lz: "lz = (l, zs)" by (cases lz)
    obtain y s2 where g: "pick l zs s1 = (y, s2)" by (metis prod.exhaust)
    from pick_no_query[OF g] obtain es2 where
      t2: "trace s2 = trace s1 @ es2" "queries es2 = []" by blast
    show ?thesis
    proof (cases y)
      case (Inl e)
      then have "s' = s2" using assms(1) f g Inr lz by (simp add: critical_def)
      then show ?thesis using fin[of es2] t2 by simp
    next
      case sel: (Inr pc)
      obtain p c where pc: "pc = (p, c)" by (cases pc)
      have h: "commit p c s2 = (r, s')" using assms(1) f g Inr lz sel pc by (simp add: critical_def)
      from commit_no_query[OF h] obtain es3 where
        t3: "trace s' = trace s2 @ es3" "queries es3 = []" by blast
      have "trace s' = trace s1 @ (es2 @ es3)" "queries (es2 @ es3) = []"
        using t2 t3 by (simp_all add: queries_simps)
      then show ?thesis using fin[of "es2 @ es3"] by simp
    qed
  qed
qed

lemma first_selected_fields:
  "zset first_selected = [(''A'', 0), (''B'', 1)]" "faults first_selected = []"
  "clock first_selected = 0" "kv first_selected lastUsedIndexKey = Some (0, None)"
  using keys_distinct(3)[of "''A''"]
  by (simp_all add: first_selected_def two_numbers_def)

lemma second_selected_fields:
  "zset second_selected = [(''A'', 0), (''B'', 1)]" "faults second_selected = []"
  "clock second_selected = 0" "kv second_selected lastUsedIndexKey = Some (1, None)"
  using keys_distinct(3)[of "''A''"] keys_distinct(3)[of "''B''"]
  by (simp_all add: second_selected_def two_numbers_def)

lemma first_selected_cursor:
  "last_score first_selected = 0" "from_cursor first_selected = [(''A'', 0), (''B'', 1)]"
  "strictly_after first_selected = [(''B'', 1)]"
  by (simp_all add: last_score_def cursor_def lookup_def from_cursor_def strictly_after_def
      first_selected_fields)

lemma second_selected_cursor:
  "last_score second_selected = 1" "from_cursor second_selected = [(''B'', 1)]"
  by (simp_all add: last_score_def cursor_def lookup_def from_cursor_def second_selected_fields)

subsection \<open>One selection after another\<close>

lemma find_hd_filter: "filter P xs \<noteq> [] \<Longrightarrow> find P xs = Some (hd (filter P xs))"
  by (induction xs) auto

lemma find_filter_None: "filter P xs = [] \<Longrightarrow> find P xs = None"
  by (induction xs) (auto split: if_splits)

lemma strict_at_most_one:
  "sorted_wrt (<) (map snd zs) \<Longrightarrow> filter (\<lambda>z. c < snd z) zs = [] \<Longrightarrow>
   length (filter (\<lambda>z. (c::int) \<le> snd z) zs) \<le> 1"
proof (induction zs)
  case Nil
  then show ?case by simp
next
  case (Cons z zs)
  have rest: "filter (\<lambda>z. c < snd z) zs = []" using Cons.prems(2) by (simp split: if_splits)
  have le: "\<not> c < snd z" using Cons.prems(2) by (simp split: if_splits)
  show ?case
  proof (cases "c \<le> snd z")
    case False
    then show ?thesis using Cons rest by simp
  next
    case True
    then have "snd z = c" using le by simp
    then have "\<forall>y \<in> set zs. c < snd y" using Cons.prems(1) by auto
    then have "zs = []" using rest by (cases zs) auto
    then show ?thesis by simp
  qed
qed

lemma chosen_ready:
  assumes "ready s" and "zset s \<noteq> []"
  shows "chosen s = hd (strictly_after s @ zset s)"
proof -
  let ?c = "last_score s"
  let ?zs = "zset s"
  let ?G = "strictly_after s"
  have fr: "\<forall>z \<in> set ?zs. free s z" using assms(1) by (simp add: ready_def list_all_iff)
  have nm: "\<forall>z \<in> set ?zs. fst z \<noteq> ''''" using assms(1) by (force simp: ready_def)
  have so: "sorted_wrt (<) (map snd ?zs)" using assms(1) by (simp add: ready_def)
  have ws: "set (walked s) \<subseteq> set ?zs" by (rule walked_subset)
  have f1: "filter (\<lambda>z. ?c < snd z \<and> free s z) (walked s) = filter (\<lambda>z. ?c < snd z) (walked s)"
    using fr ws by (intro filter_cong) auto
  have f2: "filter (free s) (walked s) = walked s"
    using fr ws by (auto simp: filter_id_conv)
  have wG: "filter (\<lambda>z. ?c < snd z) (walked s) = ?G"
  proof (cases "length (filter (in_range (Some ?c)) ?zs) \<le> 1")
    case True
    then show ?thesis by (simp add: walked_def strictly_after_def)
  next
    case False
    have "filter (\<lambda>z. ?c < snd z) (filter (in_range (Some ?c)) ?zs) = filter (\<lambda>z. ?c < snd z) ?zs"
      by (simp add: in_range_def) (rule filter_cong, auto)
    then show ?thesis using False by (simp add: walked_def strictly_after_def)
  qed
  show ?thesis
  proof (cases "?G = []")
    case False
    then have "find (\<lambda>z. ?c < snd z \<and> free s z) (walked s) = Some (hd ?G)"
      using find_hd_filter[of "\<lambda>z. ?c < snd z \<and> free s z" "walked s"] f1 wG by simp
    moreover have "hd ?G \<in> set ?zs"
      using False hd_in_set[of ?G] by (auto simp: strictly_after_def)
    ultimately show ?thesis using nm False by (simp add: chosen_def found_def)
  next
    case True
    then have none: "find (\<lambda>z. ?c < snd z \<and> free s z) (walked s) = None"
      using find_filter_None[of "\<lambda>z. ?c < snd z \<and> free s z" "walked s"] f1 wG by simp
    have "length (filter (\<lambda>z. ?c \<le> snd z) ?zs) \<le> 1"
      using strict_at_most_one[OF so] True by (simp add: strictly_after_def)
    moreover have "filter (in_range (Some ?c)) ?zs = filter (\<lambda>z. ?c \<le> snd z) ?zs"
      by (rule filter_cong) (simp_all add: in_range_def)
    ultimately have w: "walked s = ?zs" by (simp add: walked_def)
    have "find (free s) ?zs = Some (hd ?zs)"
      using find_hd_filter[of "free s" ?zs] f2 w assms(2) by simp
    then show ?thesis using none True w by (simp add: chosen_def found_def)
  qed
qed

lemma select_ready:
  assumes "ready s" and "zset s \<noteq> []"
  shows "fst (GetNextPhoneNumber s) = Inr (fst (hd (strictly_after s @ zset s)))
       \<and> ready (snd (GetNextPhoneNumber s))
       \<and> zset (snd (GetNextPhoneNumber s)) = zset s
       \<and> last_score (snd (GetNextPhoneNumber s)) = snd (hd (strictly_after s @ zset s))"
proof -
  let ?z = "hd (strictly_after s @ zset s)"
  have f: "faults s = []" "\<not> live s defaultLockKey" using assms(1) by (simp_all add: ready_def)
  have "?z \<in> set (zset s)"
    using assms(2) hd_in_set[of "strictly_after s @ zset s"] by (auto simp: strictly_after_def)
  then have nm: "fst ?z \<noteq> ''''" using assms(1) by (force simp: ready_def)
  obtain r s' where run: "GetNextPhoneNumber s = (r, s')" by (metis prod.exhaust)
  from GetNextPhoneNumber_reliable[OF f assms(2)] chosen_ready[OF assms] nm run have
    r: "r = Inr (fst ?z)" and f': "faults s' = []" and c': "clock s' = clock s"
    and l': "kv s' defaultLockKey = None" and k': "kv s' lastUsedIndexKey = Some (snd ?z, None)"
    by simp_all
  from GetNextPhoneNumber_data[OF run] r obtain c where
    z': "zset s' = zset s"
    and k: "\<forall>k. k \<noteq> defaultLockKey \<longrightarrow>
              kv s' k = ((kv s)(lastUsedIndexKey \<mapsto> (c, None),
                 counterKeyPrefix @ fst ?z \<mapsto> bump (clock s') (kv s (counterKeyPrefix @ fst ?z)))) k"
    by blast
  have le: "kv s' (phoneLockLimitedKeyPrefix @ q) = kv s (phoneLockLimitedKeyPrefix @ q)" for q
    using k keys_distinct(5,6)[of q] keys_distinct(4)[of "fst ?z" q] by auto
  have "free s' = free s" using le c' by (auto simp: free_def leased_def live_def)
  moreover have "\<not> live s' defaultLockKey" using l' by (simp add: live_def lookup_def)
  ultimately have "ready s'" using assms(1) f' z' by (simp add: ready_def)
  moreover have "last_score s' = snd ?z" using k' by (simp add: last_score_def cursor_def lookup_def)
  ultimately show ?thesis using run r z' by simp
qed

lemma exec_append:
  "exec (xs @ ys) s = (fst (exec xs s) @ fst (exec ys (snd (exec xs s))), snd (exec ys (snd (exec xs s))))"
  by (induction xs arbitrary: s) (auto split: prod.splits)

lemma exec_selects:
  "ready s \<Longrightarrow> zset s = pre @ G \<Longrightarrow> strictly_after s = G \<Longrightarrow>
   fst (exec (replicate (length G) Select) s) = map (\<lambda>z. Selected (fst z)) G
   \<and> ready (snd (exec (replicate (length G) Select) s))
   \<and> zset (snd (exec (replicate (length G) Select) s)) = zset s
   \<and> (G \<noteq> [] \<longrightarrow> last_score (snd (exec (replicate (length G) Select) s)) = snd (last G))"
proof (induction G arbitrary: pre s)
  case Nil
  then show ?case by simp
next
  case (Cons g G)
  let ?s1 = "snd (GetNextPhoneNumber s)"
  have ne: "zset s \<noteq> []" using Cons.prems(2) by simp
  from select_ready[OF Cons.prems(1) ne] Cons.prems(3) have
    r: "fst (GetNextPhoneNumber s) = Inr (fst g)" and rd: "ready ?s1"
    and z1: "zset ?s1 = zset s" and l1: "last_score ?s1 = snd g"
    by simp_all
  have so: "sorted_wrt (<) (map snd (pre @ g # G))"
    using Cons.prems(1,2) by (simp add: ready_def)
  have pre: "\<forall>y \<in> set pre. snd y < snd g" and post: "\<forall>y \<in> set G. snd g < snd y"
    using so by (auto simp: sorted_wrt_append)
  have "filter (\<lambda>z. snd g < snd z) (pre @ g # G) = G"
    using pre post by (auto simp: filter_empty_conv filter_id_conv)
  then have sa: "strictly_after ?s1 = G" using z1 l1 Cons.prems(2) by (simp add: strictly_after_def)
  have z1': "zset ?s1 = (pre @ [g]) @ G" using z1 Cons.prems(2) by simp
  note ih = Cons.IH[OF rd z1' sa]
  have st: "step Select s = (Selected (fst g), ?s1)" using r by (auto split: prod.splits sum.splits)
  have ex: "exec (replicate (length (g # G)) Select) s
      = (Selected (fst g) # fst (exec (replicate (length G) Select) ?s1),
         snd (exec (replicate (length G) Select) ?s1))"
    using st by (simp split: prod.splits del: step.simps)
  show ?case
  proof (cases "G = []")
    case True
    then show ?thesis using ex ih z1 l1 rd by (simp del: step.simps)
  next
    case False
    then show ?thesis using ex ih z1 by (simp del: step.simps)
  qed
qed

lemma exec_adds_frame:
  "kv (snd (exec (map Add ids) s)) = kv s \<and> clock (snd (exec (map Add ids) s)) = clock s"
proof (induction ids arbitrary: s)
  case Nil
  then show ?case by simp
next
  case (Cons a ids)
  obtain r s1 where ap: "AddPhoneNumber a s = (r, s1)" by (metis prod.exhaust)
  from AddPhoneNumber_frame[OF ap] Cons.IH[of s1] ap show ?case
    by (auto split: prod.splits option.splits)
qed

lemma two_numbers_built:
  "zset (snd (exec [Add ''A'', Add ''B''] fresh)) = zset two_numbers
   \<and> kv (snd (exec [Add ''A'', Add ''B''] fresh)) = kv two_numbers
   \<and> clock (snd (exec [Add ''A'', Add ''B''] fresh)) = clock two_numbers
   \<and> faults (snd (exec [Add ''A'', Add ''B''] fresh)) = faults two_numbers"
proof -
  have z0: "zset fresh = ranked []" by (simp add: fresh_def ranked_def)
  have f0: "faults fresh = []" by (simp add: fresh_def)
  have d: "distinct [''A'', ''B'']" by simp
  have rs: "fst (exec (map Add [''A'', ''B'']) fresh) = [Accepted, Accepted]"
    using exec_adds_reliable[OF d _ z0 f0] by simp
  then have "zset (snd (exec (map Add [''A'', ''B'']) fresh)) = ranked [''A'', ''B'']"
    using exec_adds[OF d _ z0] by (simp add: accepted_def del: exec.simps)
  moreover have "faults (snd (exec (map Add [''A'', ''B'']) fresh)) = []" by code_simp
  moreover have "kv (snd (exec (map Add [''A'', ''B'']) fresh)) = kv fresh
      \<and> clock (snd (exec (map Add [''A'', ''B'']) fresh)) = clock fresh"
    by (rule exec_adds_frame)
  ultimately show ?thesis
    by (simp add: two_numbers_def fresh_def ranked_def del: exec.simps)
qed

lemma select_free:
  assumes "faults s = []" and "\<not> live s defaultLockKey" and "zset s \<noteq> []"
    and "fst (chosen s) \<noteq> ''''"
  shows "fst (GetNextPhoneNumber s) = Inr (fst (chosen s))
       \<and> faults (snd (GetNextPhoneNumber s)) = []
       \<and> \<not> live (snd (GetNextPhoneNumber s)) defaultLockKey
       \<and> zset (snd (GetNextPhoneNumber s)) = zset s
       \<and> last_score (snd (GetNextPhoneNumber s)) = snd (chosen s)
       \<and> free (snd (GetNextPhoneNumber s)) = free s
       \<and> (\<forall>q. usage (snd (GetNextPhoneNumber s)) q
              = (if q = fst (chosen s)
                 then Some (1 + (case usage s q of None \<Rightarrow> 0 | Some v \<Rightarrow> v)) else usage s q))"
proof -
  obtain r s' where run: "GetNextPhoneNumber s = (r, s')" by (metis prod.exhaust)
  from GetNextPhoneNumber_reliable[OF assms(1-3)] assms(4) run have
    r: "r = Inr (fst (chosen s))" and f': "faults s' = []" and c': "clock s' = clock s"
    and l': "kv s' defaultLockKey = None"
    and k': "kv s' lastUsedIndexKey = Some (snd (chosen s), None)"
    by simp_all
  from GetNextPhoneNumber_data[OF run] r obtain c where
    z': "zset s' = zset s"
    and k: "\<forall>k. k \<noteq> defaultLockKey \<longrightarrow>
              kv s' k = ((kv s)(lastUsedIndexKey \<mapsto> (c, None),
                 counterKeyPrefix @ fst (chosen s)
                   \<mapsto> bump (clock s') (kv s (counterKeyPrefix @ fst (chosen s))))) k"
    by blast
  have le: "kv s' (phoneLockLimitedKeyPrefix @ q) = kv s (phoneLockLimitedKeyPrefix @ q)" for q
    using k keys_distinct(5,6)[of q] keys_distinct(4)[of "fst (chosen s)" q] by auto
  have fr: "free s' = free s" using le c' by (auto simp: free_def leased_def live_def)
  have nl: "\<not> live s' defaultLockKey" using l' by (simp add: live_def lookup_def)
  have ls: "last_score s' = snd (chosen s)"
    using k' by (simp add: last_score_def cursor_def lookup_def)
  have us: "usage s' q = (if q = fst (chosen s)
                 then Some (1 + (case usage s q of None \<Rightarrow> 0 | Some v \<Rightarrow> v)) else usage s q)" for q
  proof (cases "q = fst (chosen s)")
    case True
    then have "kv s' (counterKeyPrefix @ q) = Some (bump (clock s') (kv s (counterKeyPrefix @ q)))"
      using k keys_distinct(2)[of q] by simp
    then show ?thesis using True c' by (simp add: usage_def lookup_bump)
  next
    case False
    then have "kv s' (counterKeyPrefix @ q) = kv s (counterKeyPrefix @ q)"
      using k keys_distinct(2,3)[of q] by simp
    then show ?thesis using False c' by (simp add: usage_def)
  qed
  show ?thesis using run r f' nl z' ls fr us by simp
qed

lemma four_numbers_fields:
  "zset four_numbers = [(''A'', 0), (''B'', 1), (''C'', 2), (''D'', 3)]" "faults four_numbers = []"
  "\<not> live four_numbers defaultLockKey" "last_score four_numbers = - 1"
  "free four_numbers = (\<lambda>z. fst z \<noteq> ''B'')" "usage four_numbers q = None"
  using keys_distinct(5,6)[of "''B''"] keys_distinct(4)[of q "''B''"]
  by (auto simp: four_numbers_def live_def lookup_def last_score_def cursor_def free_def
      leased_def usage_def)

lemma chosen_eval:
  assumes "zset s = zs" and "last_score s = c" and "free s = fr"
  shows "chosen s
       = (let w = (if length (filter (\<lambda>z. c \<le> snd z) zs) \<le> 1 then zs
                   else filter (\<lambda>z. c \<le> snd z) zs);
              fp = found (find (\<lambda>z. c < snd z \<and> fr z) w)
          in if fst fp = '''' then found (find fr w) else fp)"
proof -
  have "filter (in_range (Some c)) zs = filter (\<lambda>z. c \<le> snd z) zs"
    by (rule filter_cong) (simp_all add: in_range_def)
  then show ?thesis using assms by (simp add: chosen_def walked_def Let_def)
qed

lemma tail_leased_fields:
  "zset tail_leased = [(''A'', 0), (''B'', 1), (''C'', 2)]" "faults tail_leased = []"
  "\<not> live tail_leased defaultLockKey" "last_score tail_leased = 1"
  "free tail_leased = (\<lambda>z. fst z \<noteq> ''B'' \<and> fst z \<noteq> ''C'')"
  by (auto simp: tail_leased_def live_def lookup_def last_score_def cursor_def free_def leased_def
      fun_eq_iff keys_distinct keys_distinct[THEN not_sym])

section \<open>Adding resources\<close>

text \<open>
  Claim C6. Starting from an empty pool and adding pairwise distinct numbers, the pool ends
  as the numbers whose call succeeded, each once, in insertion order, with the ranks
  0, 1, 2, ... (so the members are distinct and the ranks strictly increasing); when no
  command fails that is every number. Each successful call appends its number with rank \<open>next_rank\<close> of the pool it
  found: one more than the maximum rank, or 0 when the pool was empty.
\<close>

theorem AddPhoneNumber_sequence:
  assumes "distinct ids" and "zset s = []"
  shows "zset (snd (exec (map Add ids) s)) = ranked (accepted ids (fst (exec (map Add ids) s)))
       \<and> distinct (map fst (zset (snd (exec (map Add ids) s))))
       \<and> sorted_wrt (<) (map snd (zset (snd (exec (map Add ids) s))))
       \<and> (faults s = [] \<longrightarrow> zset (snd (exec (map Add ids) s)) = ranked ids)
       \<and> (\<forall>k < length ids.
            fst (AddPhoneNumber (ids ! k) (snd (exec (map Add (take k ids)) s))) = None \<longrightarrow>
            zset (snd (AddPhoneNumber (ids ! k) (snd (exec (map Add (take k ids)) s))))
              = zset (snd (exec (map Add (take k ids)) s))
                @ [(ids ! k, next_rank (zset (snd (exec (map Add (take k ids)) s))))])"
proof -
  have z0: "zset s = ranked []" using assms(2) by (simp add: ranked_def)
  have A: "zset (snd (exec (map Add ids) s)) = ranked (accepted ids (fst (exec (map Add ids) s)))"
    using exec_adds[OF assms(1) _ z0] by simp
  have B: "faults s = [] \<longrightarrow> zset (snd (exec (map Add ids) s)) = ranked ids"
  proof
    assume "faults s = []"
    from exec_adds_reliable[OF assms(1) _ z0 this]
    have "fst (exec (map Add ids) s) = map (\<lambda>i. Accepted) ids" by simp
    moreover have "accepted ids (map (\<lambda>i. Accepted) ids) = ids"
      by (induction ids) (simp_all add: accepted_def)
    ultimately show "zset (snd (exec (map Add ids) s)) = ranked ids" using A by simp
  qed
  have C: "\<forall>k < length ids.
            fst (AddPhoneNumber (ids ! k) (snd (exec (map Add (take k ids)) s))) = None \<longrightarrow>
            zset (snd (AddPhoneNumber (ids ! k) (snd (exec (map Add (take k ids)) s))))
              = zset (snd (exec (map Add (take k ids)) s))
                @ [(ids ! k, next_rank (zset (snd (exec (map Add (take k ids)) s))))]"
  proof (intro allI impI)
    fix k assume k: "k < length ids"
    let ?sk = "snd (exec (map Add (take k ids)) s)"
    let ?ys = "accepted (take k ids) (fst (exec (map Add (take k ids)) s))"
    assume ok: "fst (AddPhoneNumber (ids ! k) ?sk) = None"
    have dk: "distinct (take k ids)" using assms(1) by simp
    have zk: "zset ?sk = ranked ?ys" using exec_adds[OF dk _ z0] by simp
    have "ids ! k \<notin> set (take k ids)"
      using assms(1) k by (metis distinct_take id_take_nth_drop not_distinct_conv_prefix)
    then have new: "ids ! k \<notin> set ?ys" using accepted_subset by blast
    from AddPhoneNumber_new[OF zk new, of "fst (AddPhoneNumber (ids ! k) ?sk)" "snd (AddPhoneNumber (ids ! k) ?sk)"] ok
    have "zset (snd (AddPhoneNumber (ids ! k) ?sk)) = ranked (?ys @ [ids ! k])"
      by (simp add: prod_eq_iff)
    then show "zset (snd (AddPhoneNumber (ids ! k) ?sk)) = zset ?sk @ [(ids ! k, next_rank (zset ?sk))]"
      by (simp add: zk ranked_snoc next_rank_ranked)
  qed
  have D: "distinct (map fst (zset (snd (exec (map Add ids) s))))"
    "sorted_wrt (<) (map snd (zset (snd (exec (map Add ids) s))))"
    using A distinct_accepted[OF assms(1)] by (simp_all add: map_fst_ranked sorted_ranked)
  from A B C D show ?thesis by blast
qed


theorem AddPhoneNumber_sequence_witness:
  "distinct [''A'', ''B'', ''C''] \<and> zset fresh = [] \<and> faults fresh = []
   \<and> zset (snd (exec (map Add [''A'', ''B'', ''C'']) fresh)) = [(''A'', 0), (''B'', 1), (''C'', 2)]"
proof -
  have h1: "distinct [''A'', ''B'', ''C'']" by simp
  have h2: "zset fresh = []" by (simp add: fresh_def)
  have h3: "faults fresh = []" by (simp add: fresh_def)
  from AddPhoneNumber_sequence[OF h1 h2] h3
  have "zset (snd (exec (map Add [''A'', ''B'', ''C'']) fresh)) = ranked [''A'', ''B'', ''C'']"
    by blast
  then show ?thesis using h1 h2 h3 by (simp add: ranked_def)
qed

text \<open>
  A number that is already in the pool with a rank other than 0 is refused, and nothing
  changes. A number that is in the pool with rank 0 is not recognised: \<^verbatim>\<open>ZScore\<close>
  answers score 0 with a nil error, the test \<^verbatim>\<open>score != 0\<close> fails, and \<^verbatim>\<open>ZAdd\<close>
  moves the number behind the current maximum.
\<close>

lemma AddPhoneNumber_existing:
  assumes "map_of (zset s) number = Some sc" and "sc \<noteq> 0" and "\<not> failing s"
  shows "fst (AddPhoneNumber number s) = Some AlreadyExists
       \<and> zset (snd (AddPhoneNumber number s)) = zset s
       \<and> kv (snd (AddPhoneNumber number s)) = kv s"
  using assms by (simp add: AddPhoneNumber_def ZScore_def logged_fields)

lemma AddPhoneNumber_existing_zero:
  assumes "map_of (zset s) number = Some 0" and "faults s = []"
  shows "fst (AddPhoneNumber number s) = None
       \<and> zset (snd (AddPhoneNumber number s))
           = zinsert (number, snd (last (zset s)) + 1) (filter (\<lambda>z. fst z \<noteq> number) (zset s))"
proof -
  have ne: "zset s \<noteq> []" using assms(1) by auto
  then obtain ys y where zs: "zset s = ys @ [y]" by (meson rev_exhaust)
  have top: "(case rev (zset s) of [] \<Rightarrow> [] | z # x \<Rightarrow> [z]) = [last (zset s)]"
    by (simp add: zs)
  show ?thesis
    using assms(1) top
    by (simp add: AddPhoneNumber_def ZScore_def ZRevRangeWithScores_0_0_def ZAdd_def
        logged_fields failing_def assms(2) Let_def)
qed

text \<open>
  Claim C5. Adding a number that is already in the pool is to fail with \<open>AlreadyExists\<close> and
  leave the pool as it is. The pool built by adding A and then B holds A with rank 0;
  adding A once more is accepted, and the pool changes from [(A, 0), (B, 1)] to
  [(B, 1), (A, 2)].
\<close>

theorem AddPhoneNumber_first_again:
  "fst (exec [Add ''A'', Add ''B'', Add ''A''] fresh) = [Accepted, Accepted, Accepted]
   \<and> zset (snd (exec [Add ''A'', Add ''B''] fresh)) = [(''A'', 0), (''B'', 1)]
   \<and> zset (snd (exec [Add ''A'', Add ''B'', Add ''A''] fresh)) = [(''B'', 1), (''A'', 2)]"
  by code_simp

section \<open>Leasing a resource\<close>







section \<open>Selecting a resource\<close>

text \<open>
  Claim C10. A call of \<open>GetNextPhoneNumber\<close> that returns a number \<open>p\<close> leaves the pool
  (members and ranks) as it was, sets the cursor to a rank \<open>p\<close> has in the pool (its rank,
  members being distinct), and makes the counter of \<open>p\<close>, read when the call returns, one
  more than its old entry read at that time (an absent entry counting as zero). Every other
  key of the key space except the mutex is untouched: in particular every lease flag and
  every other number's counter. This holds for every store state and every schedule of
  I/O failures.
\<close>

theorem GetNextPhoneNumber_frame:
  assumes "GetNextPhoneNumber s = (Inr p, s')"
  shows "zset s' = zset s
       \<and> (\<exists>c. (p, c) \<in> set (zset s) \<and> cursor s' = Some c)
       \<and> (distinct (map fst (zset s)) \<longrightarrow> cursor s' = map_of (zset s) p)
       \<and> usage s' p = Some (1 + (case usage (s\<lparr>clock := clock s'\<rparr>) p of None \<Rightarrow> 0 | Some v \<Rightarrow> v))
       \<and> (\<forall>q. q \<noteq> p \<longrightarrow> kv s' (counterKeyPrefix @ q) = kv s (counterKeyPrefix @ q))
       \<and> (\<forall>q. kv s' (phoneLockLimitedKeyPrefix @ q) = kv s (phoneLockLimitedKeyPrefix @ q))
       \<and> (\<forall>k. k \<noteq> defaultLockKey \<and> k \<noteq> lastUsedIndexKey \<and> k \<noteq> counterKeyPrefix @ p \<longrightarrow>
             kv s' k = kv s k)"
proof -
  from GetNextPhoneNumber_data[OF assms] obtain c where
    z: "zset s' = zset s" and c: "(p, c) \<in> set (zset s)"
    and k: "\<forall>k. k \<noteq> defaultLockKey \<longrightarrow>
                      kv s' k = ((kv s)(lastUsedIndexKey \<mapsto> (c, None),
                         counterKeyPrefix @ p \<mapsto> bump (clock s') (kv s (counterKeyPrefix @ p)))) k"
    by blast
  have "kv s' lastUsedIndexKey = Some (c, None)"
    using k keys_distinct(1) keys_distinct(3)[of p] by simp
  then have cur: "cursor s' = Some c" by (simp add: cursor_def lookup_def)
  have "kv s' (counterKeyPrefix @ p) = Some (bump (clock s') (kv s (counterKeyPrefix @ p)))"
    using k keys_distinct(2)[of p] by simp
  then have use: "usage s' p = Some (1 + (case usage (s\<lparr>clock := clock s'\<rparr>) p of None \<Rightarrow> 0 | Some v \<Rightarrow> v))"
    by (simp add: usage_def lookup_bump)
  have others: "\<forall>k. k \<noteq> defaultLockKey \<and> k \<noteq> lastUsedIndexKey \<and> k \<noteq> counterKeyPrefix @ p \<longrightarrow>
             kv s' k = kv s k"
    using k by simp
  have cnt: "\<forall>q. q \<noteq> p \<longrightarrow> kv s' (counterKeyPrefix @ q) = kv s (counterKeyPrefix @ q)"
    using others keys_distinct(2,3) by simp
  have lea: "\<forall>q. kv s' (phoneLockLimitedKeyPrefix @ q) = kv s (phoneLockLimitedKeyPrefix @ q)"
    using others keys_distinct(5,6) keys_distinct(4)[symmetric] by simp
  have dis: "distinct (map fst (zset s)) \<longrightarrow> cursor s' = map_of (zset s) p"
    using c cur by simp
  show ?thesis using z c cur use others cnt lea dis by blast
qed

theorem GetNextPhoneNumber_frame_witness:
  "fst (GetNextPhoneNumber two_numbers) = Inr ''A''
   \<and> zset (snd (GetNextPhoneNumber two_numbers)) = [(''A'', 0), (''B'', 1)]
   \<and> cursor (snd (GetNextPhoneNumber two_numbers)) = Some 0
   \<and> usage (snd (GetNextPhoneNumber two_numbers)) ''A'' = Some 1"
proof -
  have f: "faults two_numbers = []" "\<not> live two_numbers defaultLockKey" "zset two_numbers \<noteq> []"
    by (simp_all add: live_def lookup_def two_numbers_fields)
  from GetNextPhoneNumber_reliable[OF f] chosen_two_numbers
  have r: "fst (GetNextPhoneNumber two_numbers) = Inr ''A''" by simp
  then have run: "GetNextPhoneNumber two_numbers = (Inr ''A'', snd (GetNextPhoneNumber two_numbers))"
    by (simp add: prod_eq_iff)
  from GetNextPhoneNumber_frame[OF run] r
  show ?thesis by (simp add: two_numbers_fields usage_def lookup_def)
qed

text \<open>
  Claim C3. Take any history of operations from any state (any cursor position, any number
  of calls). If the lease that \<open>R\<close> has at the start is still unexpired at the time the
  history ends, no selection in the history returns \<open>R\<close>. A lease installed in the middle
  of a history is covered by taking the rest of the history from there.
\<close>

theorem leased_never_selected:
  assumes "exec ops s = (rs, s')" and "leased (s\<lparr>clock := clock s'\<rparr>) R"
  shows "Selected R \<notin> set rs"
  using assms
proof (induction ops arbitrary: s rs)
  case Nil
  then show ?case by simp
next
  case (Cons x ops)
  obtain r s1 where st: "step x s = (r, s1)" by (metis prod.exhaust)
  obtain rs1 s2 where ex: "exec ops s1 = (rs1, s2)" by (metis prod.exhaust)
  have fin: "s' = s2" "rs = r # rs1" using Cons.prems(1) st ex by simp_all
  have until: "lookup (clock s') (kv s (phoneLockLimitedKeyPrefix @ R)) \<noteq> None"
    using Cons.prems(2) by (simp add: leased_def live_def)
  have "clock s1 \<le> clock s'" using exec_clock[OF ex] fin by simp
  then have "lookup (clock s1) (kv s (phoneLockLimitedKeyPrefix @ R)) \<noteq> None"
    using until lookup_earlier by blast
  from step_lease_key[OF st this]
  have k: "kv s1 (phoneLockLimitedKeyPrefix @ R) = kv s (phoneLockLimitedKeyPrefix @ R)"
    and r: "r \<noteq> Selected R" by simp_all
  have "leased (s1\<lparr>clock := clock s'\<rparr>) R" using until k by (simp add: leased_def live_def)
  then have "Selected R \<notin> set rs1" using Cons.IH[of s1 rs1] ex fin by simp
  then show ?case using r fin by simp
qed

theorem leased_never_selected_witness:
  "leased (second_leased\<lparr>clock := clock (snd (exec [Select] second_leased))\<rparr>) ''B''
   \<and> fst (exec [Select] second_leased) = [Selected ''A'']
   \<and> Selected ''B'' \<notin> set (fst (exec [Select] second_leased))"
proof -
  have f: "faults second_leased = []" "\<not> live second_leased defaultLockKey"
    "zset second_leased \<noteq> []"
    by (simp_all add: live_def lookup_def second_leased_fields)
  from GetNextPhoneNumber_reliable[OF f] chosen_second_leased
  have r: "fst (GetNextPhoneNumber second_leased) = Inr ''A''"
    and c: "clock (snd (GetNextPhoneNumber second_leased)) = 0"
    by (simp_all add: second_leased_fields)
  have run: "exec [Select] second_leased
      = (fst (exec [Select] second_leased), snd (exec [Select] second_leased))" by simp
  have l: "leased (second_leased\<lparr>clock := clock (snd (exec [Select] second_leased))\<rparr>) ''B''"
    using c by (simp add: exec_Select leased_def live_def lookup_def second_leased_fields del: exec.simps)
  from leased_never_selected[OF run l] l r show ?thesis
    by (simp add: exec_Select del: exec.simps)
qed

text \<open>
  Claim C7. Take any history from a state in which the counter key of \<open>R\<close> is absent. At
  the end the counter of \<open>R\<close> reads exactly the number of selections in the history that
  returned \<open>R\<close>, and it is absent (not zero) when there was none.
\<close>

theorem usage_counts_selections:
  assumes "exec ops s = (rs, s')" and "kv s (counterKeyPrefix @ R) = None"
  shows "usage s' R = (if count_list rs (Selected R) = 0 then None
                       else Some (int (count_list rs (Selected R))))"
  using exec_counter_key[OF assms(1), of R 0] assms(2)
  by (simp add: usage_def lookup_def)

theorem usage_counts_selections_witness:
  "kv two_numbers (counterKeyPrefix @ ''A'') = None
   \<and> kv two_numbers (counterKeyPrefix @ ''B'') = None
   \<and> fst (exec [Select] two_numbers) = [Selected ''A'']
   \<and> usage (snd (exec [Select] two_numbers)) ''A'' = Some 1
   \<and> usage (snd (exec [Select] two_numbers)) ''B'' = None"
proof -
  have f: "faults two_numbers = []" "\<not> live two_numbers defaultLockKey" "zset two_numbers \<noteq> []"
    by (simp_all add: live_def lookup_def two_numbers_fields)
  from GetNextPhoneNumber_reliable[OF f] chosen_two_numbers
  have r: "fst (exec [Select] two_numbers) = [Selected ''A'']"
    by (simp add: exec_Select del: exec.simps)
  have run: "exec [Select] two_numbers
      = (fst (exec [Select] two_numbers), snd (exec [Select] two_numbers))" by simp
  from usage_counts_selections[OF run two_numbers_fields(4), of "''A''"]
       usage_counts_selections[OF run two_numbers_fields(4), of "''B''"] r
  show ?thesis by (simp add: two_numbers_fields del: exec.simps)
qed

text \<open>
  A call that fails for any reason other than an error of the store (empty pool, mutex not
  acquired, every candidate leased) has changed no key but the mutex's, whatever the state
  and the schedule of I/O failures: the cursor and the counters are written only once a
  member is chosen.
\<close>

lemma refusal_changes_nothing:
  assumes "GetNextPhoneNumber s = (Inl e, s')" and "e \<noteq> StoreError"
  shows "zset s' = zset s \<and> (\<forall>k. k \<noteq> defaultLockKey \<longrightarrow> kv s' k = kv s k)"
proof -
  from GetNextPhoneNumber_data[OF assms(1)] assms(2) have
    "zset s' = zset s"
    "\<forall>k. k \<noteq> defaultLockKey \<and> k \<noteq> lastUsedIndexKey \<longrightarrow> kv s' k = kv s k"
    "kv s' lastUsedIndexKey = kv s lastUsedIndexKey"
    by simp_all
  then show ?thesis by metis
qed

text \<open>
  Claim C4. On a non-empty pool in which every number has an active lease, with a store
  that answers and the mutex free, \<open>GetNextPhoneNumber\<close> fails with
  \<open>AllResourcesLeased\<close>; the cursor and every counter read afterwards what they read
  before, and indeed no key but the mutex's is touched.
\<close>

theorem all_leased_refused:
  assumes "zset s \<noteq> []" and "\<forall>z \<in> set (zset s). leased s (fst z)"
    and "faults s = []" and "\<not> live s defaultLockKey"
  shows "fst (GetNextPhoneNumber s) = Inl AllResourcesLeased
       \<and> cursor (snd (GetNextPhoneNumber s)) = cursor s
       \<and> (\<forall>p. usage (snd (GetNextPhoneNumber s)) p = usage s p)
       \<and> (\<forall>k. k \<noteq> defaultLockKey \<longrightarrow> kv (snd (GetNextPhoneNumber s)) k = kv s k)"
proof -
  obtain r s' where run: "GetNextPhoneNumber s = (r, s')" by (metis prod.exhaust)
  from GetNextPhoneNumber_reliable[OF assms(3,4,1)] chosen_all_leased[OF assms(2)] run
  have r: "r = Inl AllResourcesLeased" and c: "clock s' = clock s" by simp_all
  from GetNextPhoneNumber_data[OF run] r have
    k: "\<forall>k. k \<noteq> defaultLockKey \<and> k \<noteq> lastUsedIndexKey \<longrightarrow> kv s' k = kv s k"
    and l: "kv s' lastUsedIndexKey = kv s lastUsedIndexKey"
    by simp_all
  have all: "\<forall>k. k \<noteq> defaultLockKey \<longrightarrow> kv s' k = kv s k" using k l by metis
  have "cursor s' = cursor s" using l c by (simp add: cursor_def)
  moreover have "\<forall>p. usage s' p = usage s p"
    using all c keys_distinct(2) by (simp add: usage_def)
  ultimately show ?thesis using run r all by simp
qed

theorem all_leased_refused_witness:
  "zset both_leased \<noteq> [] \<and> leased both_leased ''A'' \<and> leased both_leased ''B''
   \<and> faults both_leased = [] \<and> \<not> live both_leased defaultLockKey
   \<and> fst (GetNextPhoneNumber both_leased) = Inl AllResourcesLeased
   \<and> cursor (snd (GetNextPhoneNumber both_leased)) = None
   \<and> usage (snd (GetNextPhoneNumber both_leased)) ''A'' = usage both_leased ''A''"
proof -
  have h1: "zset both_leased \<noteq> []" by (simp add: both_leased_fields)
  have la: "leased both_leased ''A''" "leased both_leased ''B''"
    by (simp_all add: leased_def live_def lookup_def both_leased_fields)
  then have h2: "\<forall>z \<in> set (zset both_leased). leased both_leased (fst z)"
    by (simp add: both_leased_fields)
  have h3: "faults both_leased = []" by (simp add: both_leased_fields)
  have h4: "\<not> live both_leased defaultLockKey"
    by (simp add: live_def lookup_def both_leased_fields)
  have c: "cursor both_leased = None" by (simp add: cursor_def lookup_def both_leased_fields)
  from all_leased_refused[OF h1 h2 h3 h4] c h1 la h3 h4 show ?thesis by simp
qed

section \<open>Acquiring the mutex\<close>



section \<open>The candidates of a selection\<close>

text \<open>
  Claim C2, as the code has it. Whenever the critical section gets an answer to its read
  of the cursor and to its first range query, that query asks for the ranks from the cursor
  on (from -1 when there is no cursor) and is answered with exactly the members whose rank
  is greater than or equal to the cursor, the last selected member included, in the
  order of the pool (ascending rank); and the query of the whole pool is issued if and only
  if that answer has at most one entry. No other range query is issued.
\<close>

theorem candidate_set_from_cursor:
  assumes "critical s = (r, s')" and "\<not> failing s" and "\<not> failing (s\<lparr>faults := tl (faults s)\<rparr>)"
  shows "map fst (queries (since s s'))
           = (if length (from_cursor s) \<le> 1
              then [ZRANGEBYSCORE (Some (last_score s)), ZRANGEBYSCORE None]
              else [ZRANGEBYSCORE (Some (last_score s))])
       \<and> snd (hd (queries (since s s'))) = Entries (from_cursor s)
       \<and> from_cursor s = filter (\<lambda>z. last_score s \<le> snd z) (zset s)
       \<and> last_score s = (case cursor s of None \<Rightarrow> - 1 | Some v \<Rightarrow> v)
       \<and> (sorted (map snd (zset s)) \<longrightarrow> sorted (map snd (from_cursor s)))"
proof -
  have "sorted (map snd (zset s)) \<longrightarrow> sorted (map snd (from_cursor s))"
    unfolding from_cursor_def by (simp add: sorted_filter)
  then show ?thesis
    using critical_queries[OF assms] by (simp add: from_cursor_def last_score_def)
qed

theorem candidate_set_from_cursor_witness:
  "\<not> failing second_selected \<and> \<not> failing (second_selected\<lparr>faults := tl (faults second_selected)\<rparr>)
   \<and> cursor second_selected = Some 1
   \<and> map fst (queries (since second_selected (snd (critical second_selected))))
        = [ZRANGEBYSCORE (Some 1), ZRANGEBYSCORE None]
   \<and> snd (hd (queries (since second_selected (snd (critical second_selected))))) = Entries [(''B'', 1)]"
proof -
  have f: "\<not> failing second_selected"
    "\<not> failing (second_selected\<lparr>faults := tl (faults second_selected)\<rparr>)"
    by (simp_all add: failing_def second_selected_fields)
  have c: "cursor second_selected = Some 1"
    by (simp add: cursor_def lookup_def second_selected_fields)
  have run: "critical second_selected = (fst (critical second_selected), snd (critical second_selected))"
    by simp
  from candidate_set_from_cursor[OF run f] f c show ?thesis
    by (simp add: second_selected_cursor)
qed

text \<open>
  Claim C2 as it is stated (the queried set holds the ranks strictly greater than the
  cursor) fails on the store where A has just been selected: the members strictly behind
  the cursor are B alone, the query is answered with A and B, and although the strict set
  has no more than one entry the whole pool is not queried again.
\<close>

theorem strict_candidate_set_counterexample:
  "cursor first_selected = Some 0
   \<and> strictly_after first_selected = [(''B'', 1)]
   \<and> snd (hd (queries (since first_selected (snd (critical first_selected)))))
        = Entries [(''A'', 0), (''B'', 1)]
   \<and> Entries [(''A'', 0), (''B'', 1)] \<noteq> Entries (strictly_after first_selected)
   \<and> length (strictly_after first_selected) \<le> 1
   \<and> ZRANGEBYSCORE None
        \<notin> set (map fst (queries (since first_selected (snd (critical first_selected)))))"
proof -
  have f: "\<not> failing first_selected"
    "\<not> failing (first_selected\<lparr>faults := tl (faults first_selected)\<rparr>)"
    by (simp_all add: failing_def first_selected_fields)
  have c: "cursor first_selected = Some 0"
    by (simp add: cursor_def lookup_def first_selected_fields)
  have run: "critical first_selected = (fst (critical first_selected), snd (critical first_selected))"
    by simp
  from critical_queries[OF run f] c show ?thesis
    by (simp add: first_selected_cursor)
qed

section \<open>The rotation\<close>

text \<open>
  On a store that is \<open>ready\<close>, with no selection made yet and ranks from 0 up (as
  \<open>AddPhoneNumber\<close> assigns them), as many selections as the pool has members return the
  members once each in the order of the pool, and the next selection returns the first
  member again.
\<close>

lemma round_robin_cycle:
  assumes "ready s" and "zset s \<noteq> []" and "cursor s = None" and "\<forall>z \<in> set (zset s). 0 \<le> snd z"
  shows "fst (exec (replicate (length (zset s) + 1) Select) s)
       = map (\<lambda>z. Selected (fst z)) (zset s) @ [Selected (fst (hd (zset s)))]"
proof -
  let ?n = "length (zset s)"
  let ?s' = "snd (exec (replicate ?n Select) s)"
  have "last_score s = - 1" using assms(3) by (simp add: last_score_def)
  then have sa: "strictly_after s = zset s"
    using assms(4) by (auto simp: strictly_after_def filter_id_conv)
  from exec_selects[OF assms(1), of "[]" "zset s"] sa assms(2) have
    rs: "fst (exec (replicate ?n Select) s) = map (\<lambda>z. Selected (fst z)) (zset s)"
    and rd: "ready ?s'" and z: "zset ?s' = zset s" and l: "last_score ?s' = snd (last (zset s))"
    by simp_all
  have so: "sorted_wrt (<) (map snd (zset s))" using assms(1) by (simp add: ready_def)
  have "\<forall>y \<in> set (zset s). snd y \<le> snd (last (zset s))"
  proof -
    obtain ys y where "zset s = ys @ [y]" using assms(2) by (meson rev_exhaust)
    then show ?thesis using so by (auto simp: sorted_wrt_append)
  qed
  then have "strictly_after ?s' = []"
    using z l by (auto simp: strictly_after_def filter_empty_conv)
  with select_ready[OF rd] z assms(2)
  have "fst (GetNextPhoneNumber ?s') = Inr (fst (hd (zset s)))" by simp
  then have last: "fst (exec [Select] ?s') = [Selected (fst (hd (zset s)))]"
    by (simp add: exec_Select del: exec.simps)
  have "replicate (?n + 1) Select = replicate ?n Select @ [Select]"
    by (simp add: replicate_append_same)
  then show ?thesis using rs last by (simp add: exec_append del: exec.simps)
qed

lemma round_robin_two_numbers:
  "fst (exec [Select, Select, Select] two_numbers) = [Selected ''A'', Selected ''B'', Selected ''A'']"
proof -
  have "ready two_numbers"
    by (simp add: ready_def free_def leased_def live_def lookup_def two_numbers_fields)
  moreover have "cursor two_numbers = None" by (simp add: cursor_def lookup_def two_numbers_fields)
  ultimately show ?thesis
    using round_robin_cycle[of two_numbers] by (simp add: two_numbers_fields del: exec.simps)
qed

text \<open>
  The scenario of the specification: A, B, C and D added in this order, B leased for an
  hour; four selections return A, C, D and A, and the counters end as A = 2, C = 1,
  D = 1, with none for B.
\<close>

lemma spec_scenario:
  "fst (exec [Select, Select, Select, Select] four_numbers)
     = [Selected ''A'', Selected ''C'', Selected ''D'', Selected ''A'']
   \<and> usage (snd (exec [Select, Select, Select, Select] four_numbers)) ''A'' = Some 2
   \<and> usage (snd (exec [Select, Select, Select, Select] four_numbers)) ''B'' = None
   \<and> usage (snd (exec [Select, Select, Select, Select] four_numbers)) ''C'' = Some 1
   \<and> usage (snd (exec [Select, Select, Select, Select] four_numbers)) ''D'' = Some 1"
proof -
  let ?zs = "[(''A'', 0), (''B'', 1), (''C'', 2), (''D'', 3 :: int)]"
  let ?fr = "\<lambda>z :: string \<times> int. fst z \<noteq> ''B''"
  define s1 where "s1 = snd (GetNextPhoneNumber four_numbers)"
  define s2 where "s2 = snd (GetNextPhoneNumber s1)"
  define s3 where "s3 = snd (GetNextPhoneNumber s2)"
  define s4 where "s4 = snd (GetNextPhoneNumber s3)"
  have c0: "chosen four_numbers = (''A'', 0)"
    by (simp add: chosen_eval[OF four_numbers_fields(1,4,5)] found_def)
  from select_free[OF four_numbers_fields(2,3)] c0 have
    r1: "fst (GetNextPhoneNumber four_numbers) = Inr ''A''"
    and p1: "faults s1 = []" "\<not> live s1 defaultLockKey" "zset s1 = ?zs" "last_score s1 = 0"
      "free s1 = ?fr"
    and u1: "\<And>q. usage s1 q = (if q = ''A'' then Some 1 else None)"
    by (simp_all add: s1_def four_numbers_fields)
  have c1: "chosen s1 = (''C'', 2)" by (simp add: chosen_eval[OF p1(3-5)] found_def)
  from select_free[OF p1(1,2)] c1 have
    r2: "fst (GetNextPhoneNumber s1) = Inr ''C''"
    and p2: "faults s2 = []" "\<not> live s2 defaultLockKey" "zset s2 = ?zs" "last_score s2 = 2"
      "free s2 = ?fr"
    and u2: "\<And>q. usage s2 q = (if q = ''C'' then Some 1 else if q = ''A'' then Some 1 else None)"
    by (simp_all add: s2_def p1 u1)
  have c2: "chosen s2 = (''D'', 3)" by (simp add: chosen_eval[OF p2(3-5)] found_def)
  from select_free[OF p2(1,2)] c2 have
    r3: "fst (GetNextPhoneNumber s2) = Inr ''D''"
    and p3: "faults s3 = []" "\<not> live s3 defaultLockKey" "zset s3 = ?zs" "last_score s3 = 3"
      "free s3 = ?fr"
    and u3: "\<And>q. usage s3 q
          = (if q = ''D'' then Some 1 else if q = ''C'' then Some 1
             else if q = ''A'' then Some 1 else None)"
    by (simp_all add: s3_def p2 u2)
  have c3: "chosen s3 = (''A'', 0)" by (simp add: chosen_eval[OF p3(3-5)] found_def)
  from select_free[OF p3(1,2)] c3 have
    r4: "fst (GetNextPhoneNumber s3) = Inr ''A''"
    and u4: "usage s4 ''A'' = Some 2" "usage s4 ''B'' = None" "usage s4 ''C'' = Some 1"
      "usage s4 ''D'' = Some 1"
    by (simp_all add: s4_def p3 u3)
  have ex: "exec [Select, Select, Select, Select] four_numbers
      = ([Selected ''A'', Selected ''C'', Selected ''D'', Selected ''A''], s4)"
    using r1 r2 r3 r4 unfolding s1_def s2_def s3_def s4_def
    by (auto split: prod.splits sum.splits)
  show ?thesis by (simp add: ex u4 del: exec.simps)
qed

text \<open>
  The second loop walks the list the first one walked. When that list is the part of the
  pool from the cursor on, a free member with a rank below the cursor is not looked at:
  with the cursor on B and the members B and C behind it leased, the selection fails with
  \<open>AllResourcesLeased\<close> although A is free.
\<close>

lemma free_member_passed_over:
  "\<not> leased tail_leased ''A'' \<and> (''A'', 0) \<in> set (zset tail_leased)
   \<and> fst (GetNextPhoneNumber tail_leased) = Inl AllResourcesLeased"
proof -
  have "free tail_leased (''A'', 0)" by (simp add: tail_leased_fields)
  then have a: "\<not> leased tail_leased ''A''" by (simp add: free_def)
  have "chosen tail_leased = ('''', 0)"
    by (simp add: chosen_eval[OF tail_leased_fields(1,4,5)] found_def)
  then have "fst (GetNextPhoneNumber tail_leased) = Inl AllResourcesLeased"
    using GetNextPhoneNumber_reliable[OF tail_leased_fields(2,3)] by (simp add: tail_leased_fields)
  then show ?thesis using a by (simp add: tail_leased_fields)
qed

text \<open>
  Claim C1. With N resources, none leased, N selections are to return each resource once
  in insertion order, and the next one the first resource again. The pool that holds the
  empty name alone is such a pool (it was added with success, it has rank 0, it is not
  leased); the selection does not return it and fails with \<open>AllResourcesLeased\<close>: both
  loops end with \<^verbatim>\<open>selectedPhone\<close> equal to the empty string, which the code reads
  as nothing found.
\<close>

theorem empty_name_never_selected:
  "fst (AddPhoneNumber '''' fresh) = None
   \<and> zset (snd (AddPhoneNumber '''' fresh)) = [('''', 0)]
   \<and> \<not> leased (snd (AddPhoneNumber '''' fresh)) ''''
   \<and> fst (GetNextPhoneNumber (snd (AddPhoneNumber '''' fresh))) = Inl AllResourcesLeased"
proof -
  define s where "s = snd (AddPhoneNumber '''' fresh)"
  have z0: "zset fresh = ranked []" by (simp add: fresh_def ranked_def)
  have f0: "faults fresh = []" by (simp add: fresh_def)
  have run: "AddPhoneNumber '''' fresh = (fst (AddPhoneNumber '''' fresh), s)" by (simp add: s_def)
  from AddPhoneNumber_new_reliable[OF z0 _ f0, of "''''"]
  have ok: "fst (AddPhoneNumber '''' fresh) = None" and f: "faults s = []" by (simp_all add: s_def)
  from AddPhoneNumber_new[OF z0 _ run] ok
  have z: "zset s = [('''', 0)]" by (simp add: ranked_def)
  from AddPhoneNumber_frame[OF run]
  have k: "kv s k = None" and c: "clock s = 0" for k by (simp_all add: fresh_def)
  have nl: "\<not> leased s ''''" by (simp add: leased_def live_def lookup_def k)
  have "chosen s = ('''', 0)"
    by (simp add: chosen_def walked_def last_score_def cursor_def free_def leased_def live_def
        lookup_def found_def in_range_def z k)
  moreover have "\<not> live s defaultLockKey" by (simp add: live_def lookup_def k)
  moreover have "zset s \<noteq> []" by (simp add: z)
  ultimately have "fst (GetNextPhoneNumber s) = Inl AllResourcesLeased"
    using GetNextPhoneNumber_reliable[OF f] by simp
  then show ?thesis using ok z nl by (simp add: s_def)
qed

end
